theory Spec2Isabelle
  imports Main "HOL-Library.Char_ord" "HOL-Library.List_Lexorder"
begin

section \<open>Strings, paths and the operating system\<close>

text \<open>
  A Python \<open>str\<close> is modelled as a \<open>string\<close> holding its UTF-8 bytes. Python compares
  strings by code point; on UTF-8 text the byte order (\<open>Char_ord\<close> lifted to lists by
  \<open>List_Lexorder\<close>) is the same order. A \<open>pathlib.Path\<close> is the list of its components
  below the filesystem root; paths compare as their lists of components do, which is what
  \<open>PurePath.__lt__\<close> does on a POSIX system.
\<close>

type_synonym path = "string list"

text \<open>\<open>Path.name\<close>: the final component, the empty string for the filesystem root.\<close>

definition path_name :: "path \<Rightarrow> string" where
  "path_name p = (if p = [] then [] else last p)"

datatype error = ValueError string | OSError string | AttributeError string

fun error_str :: "error \<Rightarrow> string" where
  "error_str (ValueError m) = m"
| "error_str (OSError m) = m"
| "error_str (AttributeError m) = m"

text \<open>
  The calls the program makes into \<open>pathlib\<close>, \<open>os\<close> and \<open>fnmatch\<close> are parameters of the
  model. As documented for \<open>pathlib\<close>, \<open>Path.is_dir\<close> follows symbolic links (it is true of
  a link that points to a directory) and \<open>Path.is_symlink\<close> does not; both may propagate
  an operating-system error. \<open>os_listdir\<close> gives the names \<open>Path.iterdir\<close> yields, in the
  order the operating system returns them.
\<close>

record sys =
  path_resolve :: "string \<Rightarrow> error + path"
  path_is_dir :: "path \<Rightarrow> error + bool"
  path_is_symlink :: "path \<Rightarrow> error + bool"
  os_readlink :: "path \<Rightarrow> error + string"
  os_listdir :: "path \<Rightarrow> error + string list"
  fnmatch :: "string \<Rightarrow> string \<Rightarrow> bool"

text \<open>\<open>Path.iterdir\<close>: one child path \<open>self / name\<close> for every name listed.\<close>

definition path_iterdir :: "sys \<Rightarrow> path \<Rightarrow> error + path list" where
  "path_iterdir s p =
     (case os_listdir s p of Inl e \<Rightarrow> Inl e | Inr names \<Rightarrow> Inr (map (\<lambda>n. p @ [n]) names))"

section \<open>The item model\<close>

datatype TreeElements = FILE | LINK | DIRECTORY | LAST

text \<open>
  The glyphs are written as their UTF-8 bytes: U+251C U+2500 U+2500 for \<open>FILE\<close> and
  U+2514 U+2500 U+2500 for \<open>DIRECTORY\<close> and \<open>LAST\<close>.
\<close>

fun TreeElements_value :: "TreeElements \<Rightarrow> string" where
  "TreeElements_value FILE =
     [CHR 0xE2, CHR 0x94, CHR 0x9C, CHR 0xE2, CHR 0x94, CHR 0x80, CHR 0xE2, CHR 0x94, CHR 0x80]"
| "TreeElements_value LINK = ''->''"
| "TreeElements_value DIRECTORY =
     [CHR 0xE2, CHR 0x94, CHR 0x94, CHR 0xE2, CHR 0x94, CHR 0x80, CHR 0xE2, CHR 0x94, CHR 0x80]"
| "TreeElements_value LAST =
     [CHR 0xE2, CHR 0x94, CHR 0x94, CHR 0xE2, CHR 0x94, CHR 0x80, CHR 0xE2, CHR 0x94, CHR 0x80]"

text \<open>
  The classes \<open>File\<close>, \<open>Link\<close> and \<open>Directory\<close>. Every item stores its path; its \<open>name\<close>
  is always \<open>path.name\<close>. Only a \<open>Link\<close> has a \<open>target\<close> and only a \<open>Directory\<close> has
  \<open>children\<close>.
\<close>

datatype item = File path | Link path string | Directory path "item list"

fun item_path :: "item \<Rightarrow> path" where
  "item_path (File p) = p"
| "item_path (Link p t) = p"
| "item_path (Directory p cs) = p"

definition item_name :: "item \<Rightarrow> string" where
  "item_name it = path_name (item_path it)"

fun is_file :: "item \<Rightarrow> bool" where
  "is_file (File p) = True"
| "is_file _ = False"

fun is_link :: "item \<Rightarrow> bool" where
  "is_link (Link p t) = True"
| "is_link _ = False"

fun is_directory :: "item \<Rightarrow> bool" where
  "is_directory (Directory p cs) = True"
| "is_directory _ = False"

fun children :: "item \<Rightarrow> item list" where
  "children (Directory p cs) = cs"
| "children _ = []"

text \<open>
  \<open>Item.__init__\<close> resolves a name given as a string and keeps a \<open>Path\<close> as it is.
\<close>

datatype name_arg = Str string | PathObj path

fun Item_init :: "sys \<Rightarrow> name_arg \<Rightarrow> error + path" where
  "Item_init s (Str n) = path_resolve s n"
| "Item_init s (PathObj p) = Inr p"

definition Directory_init :: "sys \<Rightarrow> name_arg \<Rightarrow> item list option \<Rightarrow> error + item" where
  "Directory_init s n cs =
     (case Item_init s n of
        Inl e \<Rightarrow> Inl e
      | Inr p \<Rightarrow> Inr (Directory p (case cs of None \<Rightarrow> [] | Some xs \<Rightarrow> xs)))"

section \<open>The walker\<close>

record Tree =
  root :: item
  max_depth :: "int option"
  exclude :: "string list"

text \<open>The \<open>root\<close> argument of \<open>Tree\<close> is a string or an item built by the caller.\<close>

datatype root_arg = RootStr string | RootItem item

definition validate_root :: "sys \<Rightarrow> root_arg \<Rightarrow> error + item" where
  "validate_root s r =
     (case (case r of
              RootStr n \<Rightarrow>
                (case Directory_init s (Str n) None of
                   Inl e \<Rightarrow> Inl (ValueError (''Invalid root path: '' @ error_str e))
                 | Inr d \<Rightarrow> Inr d)
            | RootItem it \<Rightarrow> Inr it) of
        Inl e \<Rightarrow> Inl e
      | Inr it \<Rightarrow>
          if \<not> is_directory it then Inl (ValueError ''Root must be a directory'')
          else Inr it)"

definition Tree_init :: "sys \<Rightarrow> root_arg \<Rightarrow> int option \<Rightarrow> string list option \<Rightarrow> error + Tree" where
  "Tree_init s r md ex =
     (case validate_root s r of
        Inl e \<Rightarrow> Inl e
      | Inr it \<Rightarrow>
          Inr \<lparr>root = it, max_depth = md,
               exclude = (case ex of None \<Rightarrow> [] | Some xs \<Rightarrow> xs)\<rparr>)"

definition break_condition :: "Tree \<Rightarrow> int \<Rightarrow> bool" where
  "break_condition t current_depth =
     (case max_depth t of None \<Rightarrow> True | Some m \<Rightarrow> current_depth < m)"

fun skip_loop :: "sys \<Rightarrow> string \<Rightarrow> string list \<Rightarrow> bool" where
  "skip_loop s n [] = False"
| "skip_loop s n (pattern # patterns) =
     (if fnmatch s n pattern then True else skip_loop s n patterns)"

definition skip_condition :: "sys \<Rightarrow> Tree \<Rightarrow> path \<Rightarrow> bool" where
  "skip_condition s t item = skip_loop s (path_name item) (exclude t)"

text \<open>\<open>root.children.append\<close>: only a \<open>Directory\<close> has the attribute.\<close>

fun append_child :: "item \<Rightarrow> item \<Rightarrow> error + item" where
  "append_child (Directory p cs) c = Inr (Directory p (cs @ [c]))"
| "append_child _ c = Inl (AttributeError ''children'')"

text \<open>
  \<open>traverse_tree\<close> and \<open>process_item\<close> call each other once per directory level, and
  nothing in the program bounds the nesting when \<open>max_depth\<close> is \<open>None\<close>. The first
  argument is fuel: it bounds the nesting of \<open>traverse_tree\<close> calls, and the result
  \<open>None\<close> says that the fuel ran out. Otherwise the result is the exception raised or
  the value returned; \<open>traverse_tree\<close> returns the directory it was given, with the
  children appended, and \<open>process_item\<close> returns \<open>None\<close> for a skipped entry.
  The entries are \<open>Path\<close> objects, which \<open>Item.__init__\<close> keeps as they are, so building
  an item from an entry cannot fail.
\<close>

fun traverse_tree :: "nat \<Rightarrow> sys \<Rightarrow> Tree \<Rightarrow> item \<Rightarrow> int \<Rightarrow> (error + item) option"
  and traverse_loop :: "nat \<Rightarrow> sys \<Rightarrow> Tree \<Rightarrow> path list \<Rightarrow> int \<Rightarrow> item \<Rightarrow> (error + item) option"
  and process_item :: "nat \<Rightarrow> sys \<Rightarrow> Tree \<Rightarrow> path \<Rightarrow> int \<Rightarrow> (error + item option) option"
where
  "traverse_tree 0 s t r current_depth = None"
| "traverse_tree (Suc fuel) s t r current_depth =
     (case path_iterdir s (item_path r) of
        Inl e \<Rightarrow> Some (Inl e)
      | Inr entries \<Rightarrow> traverse_loop fuel s t (sort entries) current_depth r)"
| "traverse_loop fuel s t [] current_depth r = Some (Inr r)"
| "traverse_loop fuel s t (entry # entries) current_depth r =
     (case process_item fuel s t entry current_depth of
        None \<Rightarrow> None
      | Some (Inl e) \<Rightarrow> Some (Inl e)
      | Some (Inr None) \<Rightarrow> traverse_loop fuel s t entries current_depth r
      | Some (Inr (Some processed_item)) \<Rightarrow>
          (case append_child r processed_item of
             Inl e \<Rightarrow> Some (Inl e)
           | Inr r' \<Rightarrow> traverse_loop fuel s t entries current_depth r'))"
| "process_item fuel s t item current_depth =
     (if skip_condition s t item then Some (Inr None)
      else case path_is_dir s item of
        Inl e \<Rightarrow> Some (Inl e)
      | Inr True \<Rightarrow>
          (if break_condition t current_depth
           then (case traverse_tree fuel s t (Directory item []) (current_depth + 1) of
                   None \<Rightarrow> None
                 | Some (Inl e) \<Rightarrow> Some (Inl e)
                 | Some (Inr dir_item) \<Rightarrow> Some (Inr (Some dir_item)))
           else Some (Inr (Some (Directory item []))))
      | Inr False \<Rightarrow>
          (case path_is_symlink s item of
             Inl e \<Rightarrow> Some (Inl e)
           | Inr True \<Rightarrow>
               (case os_readlink s item of
                  Inl e \<Rightarrow> Some (Inl e)
                | Inr target \<Rightarrow> Some (Inr (Some (Link item target))))
           | Inr False \<Rightarrow> Some (Inr (Some (File item)))))"

section \<open>The renderer\<close>

datatype GraphTree = GraphTree item

fun GraphTree_root :: "GraphTree \<Rightarrow> item" where
  "GraphTree_root (GraphTree r) = r"

text \<open>
  \<open>draw\<close> reads the \<open>GraphTree\<close> object and writes to standard output, so both are
  threaded through it. Standard output is the list of the lines written so far; the
  \<open>print\<close> with \<open>end=""\<close> and the \<open>print\<close> that closes the line are one entry.
\<close>

record world =
  graph :: GraphTree
  stdout :: "string list"

definition print :: "string \<Rightarrow> world \<Rightarrow> world" where
  "print line w = w\<lparr>stdout := stdout w @ [line]\<rparr>"

text \<open>
  The list comprehension that drops \<open>None\<close> children is the identity here: the walker
  never appends \<open>None\<close>, and \<open>children\<close> holds items only.
\<close>

function draw :: "world \<Rightarrow> item option \<Rightarrow> string \<Rightarrow> bool \<Rightarrow> world" where
  "draw w item_arg prefix is_last =
     (let item = (case item_arg of None \<Rightarrow> GraphTree_root (graph w) | Some it \<Rightarrow> it);
          w1 = (case item_arg of None \<Rightarrow> print (item_name item @ ''/'') w | Some it \<Rightarrow> w)
      in if \<not> is_directory item \<or> children item = [] then w1
         else foldl (\<lambda>w' (i, child).
                let is_last_child = (int i = int (length (children item)) - 1);
                    connector = TreeElements_value (if is_last_child then LAST else FILE);
                    display_name = (if is_directory child then item_name child @ ''/''
                                    else item_name child);
                    line = prefix @ connector @ '' '' @ display_name;
                    w2 = (case child of
                            Link p target \<Rightarrow>
                              print (line @ '' '' @ TreeElements_value LINK @ '' '' @ target) w'
                          | _ \<Rightarrow> print line w')
                in if is_directory child
                   then draw w2 (Some child)
                          (prefix @ (if is_last_child then ''    ''
                                     else [CHR 0xE2, CHR 0x94, CHR 0x82] @ ''   ''))
                          is_last_child
                   else w2)
              w1 (enumerate 0 (children item)))"
  by pat_completeness auto
termination
  apply (relation "measure (\<lambda>(w, it, prefix, is_last).
            case it of None \<Rightarrow> Suc (size (GraphTree_root (graph w))) | Some i \<Rightarrow> size i)")
   apply simp
  apply (auto simp: in_set_enumerate_eq less_Suc_eq_le
      split: option.splits elim!: is_directory.elims dest!: nth_mem)
   apply (drule size_list_estimation' [where f = size and y = "size (Directory p cs)" for p cs])
    apply (auto dest!: size_list_estimation' [where f = size, OF _ order_refl])
  done

declare draw.simps [simp del]

text \<open>
  \<open>main\<close> for one root path: build the directory item, validate it, walk it from depth
  0 and draw it.
\<close>

definition main_root ::
  "nat \<Rightarrow> sys \<Rightarrow> string \<Rightarrow> int option \<Rightarrow> string list \<Rightarrow> world \<Rightarrow> (error + world) option" where
  "main_root fuel s root_dir depth excl w =
     (case Directory_init s (Str root_dir) None of
        Inl e \<Rightarrow> Some (Inl e)
      | Inr d \<Rightarrow>
          (case Tree_init s (RootItem d) depth (Some excl) of
             Inl e \<Rightarrow> Some (Inl e)
           | Inr t \<Rightarrow>
               (case traverse_tree fuel s t (root t) 0 of
                  None \<Rightarrow> None
                | Some (Inl e) \<Rightarrow> Some (Inl e)
                | Some (Inr r) \<Rightarrow> Some (Inr (draw (w\<lparr>graph := GraphTree r\<rparr>) None [] True)))))"

section \<open>Notions used to state the facts\<close>

text \<open>The lines \<open>draw\<close> writes for an item that is passed explicitly.\<close>

definition draw_lines :: "item \<Rightarrow> string \<Rightarrow> string list" where
  "draw_lines it prefix =
     stdout (draw \<lparr>graph = GraphTree it, stdout = []\<rparr> (Some it) prefix True)"

definition connector_of :: "bool \<Rightarrow> string" where
  "connector_of is_last_child = TreeElements_value (if is_last_child then LAST else FILE)"

definition extension_of :: "bool \<Rightarrow> string" where
  "extension_of is_last_child =
     (if is_last_child then ''    '' else [CHR 0xE2, CHR 0x94, CHR 0x82] @ ''   '')"

text \<open>What a child's line shows after the connector: the display name and, for a link,
  the arrow and the target.\<close>

fun row_label :: "item \<Rightarrow> string" where
  "row_label (File p) = item_name (File p)"
| "row_label (Link p t) = item_name (Link p t) @ '' -> '' @ t"
| "row_label (Directory p cs) = item_name (Directory p cs) @ ''/''"

definition child_row :: "string \<Rightarrow> bool \<Rightarrow> item \<Rightarrow> string" where
  "child_row prefix b c = prefix @ connector_of b @ '' '' @ row_label c"

text \<open>The items below an item, in the order they are drawn, and their number.\<close>

fun descendants :: "item \<Rightarrow> item list" where
  "descendants (Directory p cs) = concat (map (\<lambda>c. c # descendants c) cs)"
| "descendants _ = []"

fun count_rows :: "item \<Rightarrow> nat" where
  "count_rows (Directory p cs) = sum_list (map (\<lambda>c. Suc (count_rows c)) cs)"
| "count_rows _ = 0"

section \<open>A small filesystem\<close>

text \<open>
  A table gives, for each path, what is found there: a regular file, a directory with the
  names in it (in the order the operating system lists them), or a symbolic link with
  its raw target and, when the target is a directory, the names in that directory. The
  calls of \<open>sys\<close> read the table as the operating system would answer: \<open>is_dir\<close> and
  \<open>listdir\<close> see through a link, \<open>is_symlink\<close> and \<open>readlink\<close> look at the link itself.
  The patterns used with it contain none of \<open>*\<close>, \<open>?\<close> and \<open>[\<close>, and on such a pattern
  \<open>fnmatch\<close> is equality of strings.
\<close>

datatype node = RegularFile | Folder "string list" | Symlink string "string list option"

definition table_sys :: "(string \<Rightarrow> error + path) \<Rightarrow> (path \<times> node) list \<Rightarrow> sys" where
  "table_sys resolve tbl =
     \<lparr>path_resolve = resolve,
      path_is_dir = (\<lambda>p. Inr (case map_of tbl p of
                                 Some (Folder ns) \<Rightarrow> True
                               | Some (Symlink tg (Some ns)) \<Rightarrow> True
                               | _ \<Rightarrow> False)),
      path_is_symlink =
        (\<lambda>p. Inr (case map_of tbl p of Some (Symlink tg d) \<Rightarrow> True | _ \<Rightarrow> False)),
      os_readlink = (\<lambda>p. case map_of tbl p of
                             Some (Symlink tg d) \<Rightarrow> Inr tg
                           | Some _ \<Rightarrow> Inl (OSError ''EINVAL'')
                           | None \<Rightarrow> Inl (OSError ''ENOENT'')),
      os_listdir = (\<lambda>p. case map_of tbl p of
                            Some (Folder ns) \<Rightarrow> Inr ns
                          | Some (Symlink tg (Some ns)) \<Rightarrow> Inr ns
                          | Some _ \<Rightarrow> Inl (OSError ''ENOTDIR'')
                          | None \<Rightarrow> Inl (OSError ''ENOENT'')),
      fnmatch = (\<lambda>name pat. name = pat)\<rparr>"

text \<open>An absolute path without links among its ancestors resolves to its components.\<close>

fun path_parts :: "string \<Rightarrow> string \<Rightarrow> path" where
  "path_parts acc [] = (if acc = [] then [] else [acc])"
| "path_parts acc (c # cs) =
     (if c = CHR ''/'' then (if acc = [] then [] else [acc]) @ path_parts [] cs
      else path_parts (acc @ [c]) cs)"

text \<open>
  Five directories under \<open>/tmp\<close>: \<open>t\<close> (a subdirectory and a file), \<open>s\<close> (three entries
  listed out of order, one a directory), \<open>l\<close> (a directory and links to it, to a file and to nothing),
  \<open>e\<close> (entries named \<open>.git\<close> at two levels) and \<open>d\<close> (directories nested three deep).
  Nothing exists at \<open>/tmp/missing\<close>.
\<close>

definition example_table :: "(path \<times> node) list" where
  "example_table =
     [([''tmp'', ''t''], Folder [''y.txt'', ''sub'']),
      ([''tmp'', ''t'', ''y.txt''], RegularFile),
      ([''tmp'', ''t'', ''sub''], Folder [''x.txt'']),
      ([''tmp'', ''t'', ''sub'', ''x.txt''], RegularFile),
      ([''tmp'', ''s''], Folder [''b'', ''A'', ''a1'']),
      ([''tmp'', ''s'', ''b''], RegularFile),
      ([''tmp'', ''s'', ''A''], Folder [''z'', ''Y'']),
      ([''tmp'', ''s'', ''A'', ''z''], RegularFile),
      ([''tmp'', ''s'', ''A'', ''Y''], RegularFile),
      ([''tmp'', ''s'', ''a1''], RegularFile),
      ([''tmp'', ''l''], Folder [''to_file'', ''to_dir'', ''dir'', ''dangling'']),
      ([''tmp'', ''l'', ''dir''], Folder [''f'']),
      ([''tmp'', ''l'', ''dir'', ''f''], RegularFile),
      ([''tmp'', ''l'', ''to_dir''], Symlink ''dir'' (Some [''f''])),
      ([''tmp'', ''l'', ''to_dir'', ''f''], RegularFile),
      ([''tmp'', ''l'', ''to_file''], Symlink ''dir/f'' None),
      ([''tmp'', ''l'', ''dangling''], Symlink ''nowhere'' None),
      ([''tmp'', ''e''], Folder [''src'', ''a'', ''.git'']),
      ([''tmp'', ''e'', ''.git''], Folder [''config'']),
      ([''tmp'', ''e'', ''.git'', ''config''], RegularFile),
      ([''tmp'', ''e'', ''a''], RegularFile),
      ([''tmp'', ''e'', ''src''], Folder [''main.py'', ''.git'']),
      ([''tmp'', ''e'', ''src'', ''.git''], RegularFile),
      ([''tmp'', ''e'', ''src'', ''main.py''], RegularFile),
      ([''tmp'', ''d''], Folder [''a'']),
      ([''tmp'', ''d'', ''a''], Folder [''f'', ''b'']),
      ([''tmp'', ''d'', ''a'', ''f''], RegularFile),
      ([''tmp'', ''d'', ''a'', ''b''], Folder [''c'']),
      ([''tmp'', ''d'', ''a'', ''b'', ''c''], RegularFile)]"

definition example_sys :: sys where
  "example_sys = table_sys (\<lambda>n. Inr (path_parts [] n)) example_table"

text \<open>The tree of \<open>/tmp/t\<close>.\<close>

definition example_tree :: item where
  "example_tree =
     Directory [''tmp'', ''t'']
       [Directory [''tmp'', ''t'', ''sub''] [File [''tmp'', ''t'', ''sub'', ''x.txt'']],
        File [''tmp'', ''t'', ''y.txt'']]"

section \<open>Facts about the renderer\<close>

lemma foldl_stdout:
  assumes "\<And>w x. x \<in> set xs \<Longrightarrow> f w x = w\<lparr>stdout := stdout w @ g x\<rparr>"
  shows "foldl f w xs = w\<lparr>stdout := stdout w @ concat (map g xs)\<rparr>"
  using assms by (induction xs arbitrary: w) auto

lemma draw_leaf:
  "\<not> is_directory it \<or> children it = [] \<Longrightarrow> draw w (Some it) prefix il = w"
  by (subst draw.simps) (simp add: Let_def)

lemma draw_unfold_Directory:
  "cs \<noteq> [] \<Longrightarrow> draw w (Some (Directory p cs)) prefix il =
     foldl (\<lambda>w' (i, child).
        if is_directory child
        then draw (print (child_row prefix (int i = int (length cs) - 1) child) w') (Some child)
               (prefix @ extension_of (int i = int (length cs) - 1)) (int i = int (length cs) - 1)
        else print (child_row prefix (int i = int (length cs) - 1) child) w')
      w (enumerate 0 cs)"
  apply (subst draw.simps)
  apply (simp add: Let_def connector_of_def extension_of_def)
  apply (rule foldl_cong)
    apply simp
   apply simp
  apply (auto simp: child_row_def connector_of_def extension_of_def split: item.splits)
  done

lemma draw_Some_append:
  "draw w (Some it) prefix il = w\<lparr>stdout := stdout w @ draw_lines it prefix\<rparr>"
proof (induction it arbitrary: w prefix il)
  case (File p)
  then show ?case by (simp add: draw_leaf draw_lines_def)
next
  case (Link p t)
  then show ?case by (simp add: draw_leaf draw_lines_def)
next
  case (Directory p cs)
  show ?case
  proof (cases "cs = []")
    case True
    then show ?thesis by (simp add: draw_leaf draw_lines_def)
  next
    case False
    define g where "g = (\<lambda>(i, c). child_row prefix (int i = int (length cs) - 1) c #
                           draw_lines c (prefix @ extension_of (int i = int (length cs) - 1)))"
    define f where "f = (\<lambda>w' (i, child).
        if is_directory child
        then draw (print (child_row prefix (int i = int (length cs) - 1) child) w') (Some child)
               (prefix @ extension_of (int i = int (length cs) - 1)) (int i = int (length cs) - 1)
        else print (child_row prefix (int i = int (length cs) - 1) child) w')"
    have step: "f w' x = w'\<lparr>stdout := stdout w' @ g x\<rparr>" if "x \<in> set (enumerate 0 cs)" for w' x
    proof -
      obtain i c where x: "x = (i, c)" by (cases x)
      with that have c: "c \<in> set cs" by (auto simp: in_set_enumerate_eq)
      show ?thesis
      proof (cases "is_directory c")
        case True
        then show ?thesis
          unfolding x f_def g_def using Directory.IH[OF c] by (simp add: print_def)
      next
        case False
        then have "draw_lines c q = []" for q by (simp add: draw_lines_def draw_leaf)
        with False show ?thesis unfolding x f_def g_def by (simp add: print_def)
      qed
    qed
    have all: "foldl f w' (enumerate 0 cs) =
                 w'\<lparr>stdout := stdout w' @ concat (map g (enumerate 0 cs))\<rparr>" for w'
      by (rule foldl_stdout) (rule step)
    have "draw w' (Some (Directory p cs)) prefix b = foldl f w' (enumerate 0 cs)" for w' b
      unfolding f_def using False by (rule draw_unfold_Directory)
    then show ?thesis by (simp add: all draw_lines_def)
  qed
qed

lemma draw_lines_leaf:
  "\<not> is_directory it \<or> children it = [] \<Longrightarrow> draw_lines it prefix = []"
  by (simp add: draw_lines_def draw_leaf)

lemma draw_lines_Directory:
  "draw_lines (Directory p cs) prefix =
     concat (map (\<lambda>(i, c). child_row prefix (Suc i = length cs) c #
                    draw_lines c (prefix @ extension_of (Suc i = length cs))) (enumerate 0 cs))"
proof (cases "cs = []")
  case True
  then show ?thesis by (simp add: draw_lines_leaf)
next
  case False
  have eq: "(int i = int (length cs) - 1) = (Suc i = length cs)" for i
    by auto
  show ?thesis
    unfolding draw_lines_def
    apply (subst draw_unfold_Directory [OF False])
    apply (subst foldl_stdout [where g = "\<lambda>(i, c). child_row prefix (Suc i = length cs) c #
                    draw_lines c (prefix @ extension_of (Suc i = length cs))"])
     apply (auto simp: eq draw_Some_append print_def draw_lines_leaf)
    done
qed

lemma draw_None:
  "draw w None prefix il =
     w\<lparr>stdout := stdout w @ (item_name (GraphTree_root (graph w)) @ ''/'') #
                     draw_lines (GraphTree_root (graph w)) prefix\<rparr>"
proof -
  let ?r = "GraphTree_root (graph w)"
  have "draw w None prefix il = draw (print (item_name ?r @ ''/'') w) (Some ?r) prefix il"
    apply (subst draw.simps)
    apply (subst (2) draw.simps)
    apply (simp add: Let_def)
    done
  then show ?thesis by (simp add: draw_Some_append print_def)
qed

lemma child_row_label: "child_row prefix b c = prefix @ connector_of b @ '' '' @ row_label c"
  by (simp add: child_row_def)

lemma map_enumerate_snd: "map (\<lambda>(i, c). f c) (enumerate n cs) = map f cs"
  by (induction cs arbitrary: n) auto

lemma length_draw_lines: "length (draw_lines it prefix) = count_rows it"
proof (induction it arbitrary: prefix)
  case (Directory p cs)
  have "map (\<lambda>x. length (case x of (i, c) \<Rightarrow> child_row prefix (Suc i = length cs) c #
                    draw_lines c (prefix @ extension_of (Suc i = length cs)))) (enumerate 0 cs)
        = map (\<lambda>(i, c). Suc (count_rows c)) (enumerate 0 cs)"
    by (rule map_cong) (auto simp: in_set_enumerate_eq Directory.IH)
  then show ?case
    by (simp add: draw_lines_Directory length_concat comp_def map_enumerate_snd)
qed (simp_all add: draw_lines_leaf)

lemma concat_block_head:
  "i < length xs \<Longrightarrow> g (xs ! i) \<noteq> [] \<Longrightarrow>
     concat (map g xs) ! sum_list (map (\<lambda>x. length (g x)) (take i xs)) = hd (g (xs ! i))"
proof (induction xs arbitrary: i)
  case Nil
  then show ?case by simp
next
  case (Cons x xs)
  show ?case
  proof (cases i)
    case 0
    with Cons.prems show ?thesis by (simp add: nth_append hd_conv_nth)
  next
    case (Suc j)
    with Cons show ?thesis by (simp add: nth_append)
  qed
qed

lemma draw_lines_child_row:
  assumes "i < length cs"
  shows "draw_lines (Directory p cs) prefix ! sum_list (map (\<lambda>c. Suc (count_rows c)) (take i cs))
           = child_row prefix (Suc i = length cs) (cs ! i)"
proof -
  let ?g = "\<lambda>(j, c). child_row prefix (Suc j = length cs) c #
                    draw_lines c (prefix @ extension_of (Suc j = length cs))"
  have len: "map (\<lambda>x. length (?g x)) (enumerate 0 cs) = map (\<lambda>c. Suc (count_rows c)) cs"
  proof -
    have "map (\<lambda>x. length (?g x)) (enumerate 0 cs) =
            map (\<lambda>(j, c). Suc (count_rows c)) (enumerate 0 cs)"
      by (rule map_cong) (auto simp: length_draw_lines)
    then show ?thesis by (simp add: map_enumerate_snd)
  qed
  have "concat (map ?g (enumerate 0 cs)) !
          sum_list (map (\<lambda>x. length (?g x)) (take i (enumerate 0 cs))) =
        hd (?g (enumerate 0 cs ! i))"
    using assms by (intro concat_block_head) (auto simp: nth_enumerate_eq)
  moreover have "map (\<lambda>x. length (?g x)) (take i (enumerate 0 cs)) =
                   map (\<lambda>c. Suc (count_rows c)) (take i cs)"
    using len by (simp add: take_map [symmetric])
  ultimately show ?thesis
    using assms by (simp add: draw_lines_Directory nth_enumerate_eq)
qed

lemma draw_lines_rows:
  "x \<in> set (draw_lines it prefix) \<Longrightarrow>
     \<exists>pre b c. c \<in> set (descendants it) \<and> x = pre @ connector_of b @ '' '' @ row_label c"
proof (induction it arbitrary: prefix x)
  case (Directory p cs)
  from Directory.prems obtain i where
    i: "i < length cs" and
    xi: "x = child_row prefix (Suc i = length cs) (cs ! i) \<or>
        x \<in> set (draw_lines (cs ! i) (prefix @ extension_of (Suc i = length cs)))"
    by (auto simp: draw_lines_Directory in_set_enumerate_eq)
  define c where "c = cs ! i"
  from i have c: "c \<in> set cs" by (simp add: c_def)
  from xi have x: "x = child_row prefix (Suc i = length cs) c \<or>
        x \<in> set (draw_lines c (prefix @ extension_of (Suc i = length cs)))"
    by (simp add: c_def)
  from x show ?case
  proof
    assume "x = child_row prefix (Suc i = length cs) c"
    with c show ?thesis
      by (intro exI [of _ prefix] exI [of _ "Suc i = length cs"] exI [of _ c])
         (auto simp: child_row_label)
  next
    assume "x \<in> set (draw_lines c (prefix @ extension_of (Suc i = length cs)))"
    from Directory.IH [OF c this] obtain pre b c' where
      "c' \<in> set (descendants c)" "x = pre @ connector_of b @ '' '' @ row_label c'"
      by blast
    with c show ?thesis
      by (intro exI [of _ pre] exI [of _ b] exI [of _ c']) auto
  qed
qed (simp_all add: draw_lines_leaf)

section \<open>Facts about the walker\<close>

declare process_item.simps [simp del]

lemma process_item_None_iff:
  "process_item fuel s t e d = Some (Inr None) \<longleftrightarrow> skip_condition s t e"
  by (simp add: process_item.simps split: sum.splits bool.splits option.splits)

lemma traverse_loop_Directory:
  "traverse_loop fuel s t es d (Directory p cs) = Some (Inr r) \<Longrightarrow>
     \<exists>new. r = Directory p (cs @ new) \<and>
       list_all2 (\<lambda>e it. process_item fuel s t e d = Some (Inr (Some it)))
         (filter (\<lambda>e. \<not> skip_condition s t e) es) new"
proof (induction es arbitrary: cs)
  case Nil
  then show ?case by simp
next
  case (Cons e es)
  show ?case
  proof (cases "process_item fuel s t e d")
    case None
    with Cons.prems show ?thesis by simp
  next
    case (Some res)
    show ?thesis
    proof (cases res)
      case (Inl err)
      with Some Cons.prems show ?thesis by simp
    next
      case (Inr oit)
      show ?thesis
      proof (cases oit)
        case None
        with Some Inr have skip: "skip_condition s t e"
          using process_item_None_iff [of fuel s t e d] by simp
        from None Some Inr Cons.prems have "traverse_loop fuel s t es d (Directory p cs) = Some (Inr r)"
          by simp
        from Cons.IH [OF this] skip show ?thesis by simp
      next
        case (Some it)
        with \<open>process_item fuel s t e d = Some res\<close> Inr
        have pi: "process_item fuel s t e d = Some (Inr (Some it))" by simp
        then have nskip: "\<not> skip_condition s t e"
          using process_item_None_iff [of fuel s t e d] by simp
        from pi Cons.prems have "traverse_loop fuel s t es d (Directory p (cs @ [it])) = Some (Inr r)"
          by simp
        from Cons.IH [OF this] obtain new where
          "r = Directory p ((cs @ [it]) @ new)"
          "list_all2 (\<lambda>e it. process_item fuel s t e d = Some (Inr (Some it)))
             (filter (\<lambda>e. \<not> skip_condition s t e) es) new"
          by blast
        with pi nskip show ?thesis by (intro exI [of _ "it # new"]) simp
      qed
    qed
  qed
qed

lemma traverse_tree_Directory:
  assumes "traverse_tree fuel s t (Directory p cs) d = Some (Inr r)"
  shows "\<exists>fuel' names new. fuel = Suc fuel' \<and> os_listdir s p = Inr names \<and>
           r = Directory p (cs @ new) \<and>
           list_all2 (\<lambda>e it. process_item fuel' s t e d = Some (Inr (Some it)))
             (filter (\<lambda>e. \<not> skip_condition s t e) (sort (map (\<lambda>n. p @ [n]) names))) new"
proof (cases fuel)
  case 0
  with assms show ?thesis by simp
next
  case (Suc fuel')
  with assms obtain names where names: "os_listdir s p = Inr names"
    by (cases "os_listdir s p") (auto simp: path_iterdir_def)
  with Suc assms have "traverse_loop fuel' s t (sort (map (\<lambda>n. p @ [n]) names)) d (Directory p cs) = Some (Inr r)"
    by (simp add: path_iterdir_def)
  from traverse_loop_Directory [OF this] Suc names show ?thesis by blast
qed

lemma process_item_path:
  assumes "process_item fuel s t e d = Some (Inr (Some it))"
  shows "item_path it = e"
  using assms
  by (auto simp: process_item.simps split: sum.splits bool.splits option.splits if_splits
        dest!: traverse_tree_Directory)

lemma process_item_cutoff:
  assumes "\<not> break_condition t d"
  shows "process_item fuel s t e d \<noteq> None"
    and "process_item fuel s t e d = Some (Inr (Some it)) \<Longrightarrow> children it = []"
  using assms
  by (auto simp: process_item.simps split: sum.splits bool.splits option.splits if_splits)

lemma child_path_le: "(p @ [a] \<le> p @ [b]) \<longleftrightarrow> (a \<le> b)" for a b :: string
  by (induction p) auto

lemma insort_child_paths:
  "insort (p @ [n]) (map (\<lambda>n. p @ [n]) ns) = map (\<lambda>n. p @ [n]) (insort n ns)" for n :: string
  by (induction ns) (auto simp: child_path_le)

lemma sort_child_paths:
  "sort (map (\<lambda>n. p @ [n]) names) = map (\<lambda>n. p @ [n]) (sort names)" for names :: "string list"
  by (induction names) (auto simp: insort_child_paths)

lemma list_all2_paths:
  "list_all2 (\<lambda>e it. process_item fuel s t e d = Some (Inr (Some it))) es new \<Longrightarrow>
     map item_path new = es"
  by (induction es new rule: list_all2_induct) (auto simp: process_item_path)

lemma skip_condition_child [simp]:
  "skip_condition s t (p @ [n]) = skip_loop s n (exclude t)"
  by (simp add: skip_condition_def path_name_def)

lemma item_name_child: "item_path it = p @ [n] \<Longrightarrow> item_name it = n"
  by (simp add: item_name_def path_name_def)

lemma traverse_loop_total:
  "(\<And>e. e \<in> set es \<Longrightarrow> process_item fuel s t e d \<noteq> None) \<Longrightarrow>
     traverse_loop fuel s t es d r \<noteq> None"
proof (induction es arbitrary: r)
  case Nil
  then show ?case by simp
next
  case (Cons e es)
  from Cons.prems have "process_item fuel s t e d \<noteq> None" by simp
  moreover have "traverse_loop fuel s t es d r' \<noteq> None" for r'
    by (rule Cons.IH) (simp add: Cons.prems)
  ultimately show ?case
    by (auto split: option.splits sum.splits)
qed

lemma traverse_tree_total:
  assumes "\<And>e. process_item fuel s t e d \<noteq> None"
  shows "traverse_tree (Suc fuel) s t r d \<noteq> None"
proof (cases "path_iterdir s (item_path r)")
  case (Inl err)
  then show ?thesis by simp
next
  case (Inr es)
  have "traverse_loop fuel s t (sort es) d r \<noteq> None"
    by (rule traverse_loop_total) (rule assms)
  with Inr show ?thesis by simp
qed

lemma process_item_total:
  "max_depth t = Some m \<Longrightarrow> m - d \<le> int fuel \<Longrightarrow> process_item fuel s t e d \<noteq> None"
proof (induction fuel arbitrary: d e)
  case 0
  then have "\<not> break_condition t d" by (simp add: break_condition_def)
  then show ?case by (rule process_item_cutoff)
next
  case (Suc fuel)
  show ?case
  proof (cases "break_condition t d")
    case False
    then show ?thesis by (rule process_item_cutoff)
  next
    case True
    have "process_item fuel s t e' (d + 1) \<noteq> None" for e'
      using Suc.prems by (intro Suc.IH) auto
    then have "traverse_tree (Suc fuel) s t (Directory e []) (d + 1) \<noteq> None"
      by (rule traverse_tree_total)
    then obtain res where "traverse_tree (Suc fuel) s t (Directory e []) (d + 1) = Some res"
      by blast
    then show ?thesis
      by (simp add: process_item.simps del: traverse_tree.simps
            split: sum.splits bool.splits option.splits)
  qed
qed

lemma traverse_tree_max_depth_total:
  assumes "max_depth t = Some m" and "m - d \<le> int fuel"
  shows "traverse_tree (Suc fuel) s t r d \<noteq> None"
  by (rule traverse_tree_total) (rule process_item_total [OF assms])

lemma process_item_cases:
  assumes "process_item fuel s t e d = Some (Inr (Some it))"
  shows "\<not> skip_condition s t e \<and>
     (path_is_dir s e = Inr True \<and> break_condition t d \<and>
        traverse_tree fuel s t (Directory e []) (d + 1) = Some (Inr it)
      \<or> path_is_dir s e = Inr True \<and> \<not> break_condition t d \<and> it = Directory e []
      \<or> path_is_dir s e = Inr False \<and> path_is_symlink s e = Inr True \<and>
          (\<exists>target. os_readlink s e = Inr target \<and> it = Link e target)
      \<or> path_is_dir s e = Inr False \<and> path_is_symlink s e = Inr False \<and> it = File e)"
  using assms
  by (simp add: process_item.simps del: traverse_tree.simps
        split: sum.splits bool.splits option.splits if_splits)

lemma skip_loop_fnmatch:
  "fnmatch s' = fnmatch s \<Longrightarrow> skip_loop s' n pats = skip_loop s n pats"
  by (induction pats) auto

lemma traverse_loop_cong:
  "(\<And>e. e \<in> set es \<Longrightarrow> process_item fuel s' t e d = process_item fuel s t e d) \<Longrightarrow>
     traverse_loop fuel s' t es d r = traverse_loop fuel s t es d r"
proof (induction es arbitrary: r)
  case Nil
  then show ?case by simp
next
  case (Cons e es)
  have 1: "process_item fuel s' t e d = process_item fuel s t e d"
    by (rule Cons.prems) simp
  have 2: "traverse_loop fuel s' t es d r' = traverse_loop fuel s t es d r'" for r'
    by (rule Cons.IH) (simp add: Cons.prems)
  show ?case by (simp add: 1 2 split: option.splits sum.splits)
qed

lemma traverse_tree_agree:
  assumes fn: "fnmatch s' = fnmatch s"
  shows "(\<And>ns. \<forall>n\<in>set ns. \<not> skip_loop s n (exclude t) \<Longrightarrow>
            path_is_dir s' (item_path r @ ns) = path_is_dir s (item_path r @ ns) \<and>
            path_is_symlink s' (item_path r @ ns) = path_is_symlink s (item_path r @ ns) \<and>
            os_readlink s' (item_path r @ ns) = os_readlink s (item_path r @ ns) \<and>
            os_listdir s' (item_path r @ ns) = os_listdir s (item_path r @ ns)) \<Longrightarrow>
         traverse_tree fuel s' t r d = traverse_tree fuel s t r d"
proof (induction fuel arbitrary: r d)
  case 0
  show ?case by simp
next
  case (Suc fuel)
  let ?p = "item_path r"
  from Suc.prems [of "[]"] have ls: "os_listdir s' ?p = os_listdir s ?p" by simp
  show ?case
  proof (cases "os_listdir s ?p")
    case (Inl err)
    with ls show ?thesis by (simp add: path_iterdir_def)
  next
    case (Inr names)
    have "process_item fuel s' t e d = process_item fuel s t e d"
      if "e \<in> set (sort (map (\<lambda>n. ?p @ [n]) names))" for e
    proof -
      from that obtain n where e: "e = ?p @ [n]" by auto
      have skip: "skip_condition s' t e = skip_condition s t e"
        by (simp add: skip_condition_def skip_loop_fnmatch [OF fn])
      show ?thesis
      proof (cases "skip_condition s t e")
        case True
        with skip show ?thesis by (simp add: process_item.simps)
      next
        case False
        then have n: "\<not> skip_loop s n (exclude t)" by (simp add: e)
        from Suc.prems [of "[n]"] n
        have loc: "path_is_dir s' e = path_is_dir s e"
          "path_is_symlink s' e = path_is_symlink s e"
          "os_readlink s' e = os_readlink s e"
          by (simp_all add: e)
        have "traverse_tree fuel s' t (Directory e []) (d + 1) =
              traverse_tree fuel s t (Directory e []) (d + 1)"
        proof (rule Suc.IH)
          fix ns assume "\<forall>n\<in>set ns. \<not> skip_loop s n (exclude t)"
          with n have "\<forall>m\<in>set (n # ns). \<not> skip_loop s m (exclude t)" by simp
          from Suc.prems [OF this]
          show "path_is_dir s' (item_path (Directory e []) @ ns) =
                  path_is_dir s (item_path (Directory e []) @ ns) \<and>
                path_is_symlink s' (item_path (Directory e []) @ ns) =
                  path_is_symlink s (item_path (Directory e []) @ ns) \<and>
                os_readlink s' (item_path (Directory e []) @ ns) =
                  os_readlink s (item_path (Directory e []) @ ns) \<and>
                os_listdir s' (item_path (Directory e []) @ ns) =
                  os_listdir s (item_path (Directory e []) @ ns)"
            by (simp add: e)
        qed
        with skip loc show ?thesis
          by (simp add: process_item.simps del: traverse_tree.simps
                split: sum.splits bool.splits option.splits)
      qed
    qed
    then have "traverse_loop fuel s' t (sort (map (\<lambda>n. ?p @ [n]) names)) d r =
               traverse_loop fuel s t (sort (map (\<lambda>n. ?p @ [n]) names)) d r"
      by (rule traverse_loop_cong)
    with ls Inr show ?thesis by (simp add: path_iterdir_def)
  qed
qed

lemma list_all2_rightD:
  "list_all2 P xs ys \<Longrightarrow> y \<in> set ys \<Longrightarrow> \<exists>x\<in>set xs. P x y"
  by (induction xs ys rule: list_all2_induct) auto

lemma traverse_tree_descendants:
  "traverse_tree fuel s t (Directory p cs) d = Some (Inr r) \<Longrightarrow>
     \<exists>new. r = Directory p (cs @ new) \<and>
       (\<forall>c\<in>set new. \<forall>it\<in>set (c # descendants c).
          \<exists>ns. ns \<noteq> [] \<and> item_path it = p @ ns \<and> (\<forall>n\<in>set ns. \<not> skip_loop s n (exclude t)))"
proof (induction fuel arbitrary: p cs d r)
  case 0
  then show ?case by simp
next
  case (Suc fuel)
  from traverse_tree_Directory [OF Suc.prems] obtain names new where
    r: "r = Directory p (cs @ new)" and
    new: "list_all2 (\<lambda>e it. process_item fuel s t e d = Some (Inr (Some it)))
             (filter (\<lambda>e. \<not> skip_condition s t e) (sort (map (\<lambda>n. p @ [n]) names))) new"
    by auto
  have "\<exists>ns. ns \<noteq> [] \<and> item_path it = p @ ns \<and> (\<forall>n\<in>set ns. \<not> skip_loop s n (exclude t))"
    if c: "c \<in> set new" and it: "it \<in> set (c # descendants c)" for c it
  proof -
    from list_all2_rightD [OF new c] obtain e where
      e: "e \<in> set (filter (\<lambda>e. \<not> skip_condition s t e) (sort (map (\<lambda>n. p @ [n]) names)))"
      and pi: "process_item fuel s t e d = Some (Inr (Some c))"
      by blast
    from e obtain n where n: "e = p @ [n]" "\<not> skip_loop s n (exclude t)" by auto
    have top: "item_path c = p @ [n]"
      using process_item_path [OF pi] n by simp
    show ?thesis
    proof (cases "it = c")
      case True
      with top n show ?thesis by (intro exI [of _ "[n]"]) simp
    next
      case False
      with it have below: "it \<in> set (descendants c)" by simp
      then have "descendants c \<noteq> []" by auto
      with process_item_cases [OF pi]
      have "traverse_tree fuel s t (Directory e []) (d + 1) = Some (Inr c)"
        by auto
      from Suc.IH [OF this] obtain new' where
        c': "c = Directory e new'" and
        sub: "\<forall>c'\<in>set new'. \<forall>it\<in>set (c' # descendants c').
          \<exists>ns. ns \<noteq> [] \<and> item_path it = e @ ns \<and> (\<forall>n\<in>set ns. \<not> skip_loop s n (exclude t))"
        by auto
      from below c' obtain c'' where "c'' \<in> set new'" "it \<in> set (c'' # descendants c'')"
        by auto
      with sub obtain ns where
        "item_path it = e @ ns" "\<forall>n\<in>set ns. \<not> skip_loop s n (exclude t)"
        by blast
      with n show ?thesis by (intro exI [of _ "n # ns"]) simp
    qed
  qed
  with r show ?case by blast
qed

text \<open>More fuel does not change a result.\<close>

lemma traverse_loop_fuel:
  assumes "\<And>e y. process_item fuel s t e d = Some y \<Longrightarrow> process_item (Suc fuel) s t e d = Some y"
  shows "traverse_loop fuel s t es d r = Some x \<Longrightarrow> traverse_loop (Suc fuel) s t es d r = Some x"
proof (induction es arbitrary: r)
  case Nil
  then show ?case by simp
next
  case (Cons e es)
  from Cons.prems obtain y where y: "process_item fuel s t e d = Some y"
    by (cases "process_item fuel s t e d") auto
  with assms have y': "process_item (Suc fuel) s t e d = Some y" by blast
  from Cons.prems y y' Cons.IH show ?case
    by (auto split: sum.splits option.splits)
qed

lemma fuel_Suc:
  "(traverse_tree fuel s t r d = Some x \<longrightarrow> traverse_tree (Suc fuel) s t r d = Some x) \<and>
   (process_item fuel s t e d = Some y \<longrightarrow> process_item (Suc fuel) s t e d = Some y)"
proof (induction fuel arbitrary: r d x e y)
  case 0
  show ?case
    by (auto simp: process_item.simps split: sum.splits bool.splits if_splits)
next
  case (Suc fuel)
  have pi: "process_item fuel s t e' d' = Some y' \<Longrightarrow> process_item (Suc fuel) s t e' d' = Some y'"
    for e' d' y'
    using Suc.IH by blast
  have tt: "traverse_tree (Suc fuel) s t r' d' = Some x' \<Longrightarrow>
            traverse_tree (Suc (Suc fuel)) s t r' d' = Some x'" for r' d' x'
    using traverse_loop_fuel [of fuel s t d', OF pi]
    by (auto split: sum.splits)
  have "process_item (Suc fuel) s t e d = Some y \<Longrightarrow> process_item (Suc (Suc fuel)) s t e d = Some y"
    using tt [of "Directory e []" "d + 1"]
    by (simp add: process_item.simps del: traverse_tree.simps
          split: sum.splits bool.splits if_splits option.splits)
  with tt show ?case by blast
qed

lemma traverse_tree_fuel_mono:
  "traverse_tree fuel s t r d = Some x \<Longrightarrow> traverse_tree (fuel + k) s t r d = Some x"
  by (induction k) (auto dest: fuel_Suc [THEN conjunct1, THEN mp])

lemma process_item_link:
  assumes "\<not> skip_condition s t e" and "path_is_dir s e = Inr False"
    and "path_is_symlink s e = Inr True" and "os_readlink s e = Inr target"
  shows "process_item fuel s t e d = Some (Inr (Some (Link e target)))"
  using assms by (simp add: process_item.simps)

lemma process_item_directory:
  assumes "\<not> skip_condition s t e" and "path_is_dir s e = Inr True"
    and "process_item fuel s t e d = Some (Inr (Some it))"
  shows "is_directory it"
  using assms
  by (auto simp: process_item.simps split: if_splits option.splits sum.splits
        dest!: traverse_tree_Directory)

lemma Tree_init_RootStr:
  "path_resolve s n = Inr p \<Longrightarrow>
     Tree_init s (RootStr n) md ex =
       Inr \<lparr>root = Directory p [], max_depth = md,
            exclude = (case ex of None \<Rightarrow> [] | Some xs \<Rightarrow> xs)\<rparr>"
  by (simp add: Tree_init_def validate_root_def Directory_init_def)

lemma Tree_init_RootItem:
  "Tree_init s (RootItem it) md ex =
     (if is_directory it
      then Inr \<lparr>root = it, max_depth = md, exclude = (case ex of None \<Rightarrow> [] | Some xs \<Rightarrow> xs)\<rparr>
      else Inl (ValueError ''Root must be a directory''))"
  by (simp add: Tree_init_def validate_root_def)

lemma skip_loop_iff: "skip_loop s n pats \<longleftrightarrow> (\<exists>pat\<in>set pats. fnmatch s n pat)"
  by (induction pats) auto

lemma skip_condition_iff:
  "skip_condition s t q \<longleftrightarrow> (\<exists>pat\<in>set (exclude t). fnmatch s (path_name q) pat)"
  by (simp add: skip_condition_def skip_loop_iff)

lemma traverse_tree_level:
  assumes "traverse_tree fuel s t (Directory p cs) d = Some (Inr r)"
  shows "\<exists>names new. os_listdir s p = Inr names \<and> r = Directory p (cs @ new) \<and>
           map item_name new = filter (\<lambda>n. \<not> skip_loop s n (exclude t)) (sort names) \<and>
           map item_path new = map (\<lambda>n. p @ [n]) (map item_name new) \<and>
           sorted (map item_name new)"
proof -
  from traverse_tree_Directory [OF assms] obtain fuel' names new where
    names: "os_listdir s p = Inr names" and
    r: "r = Directory p (cs @ new)" and
    new: "list_all2 (\<lambda>e it. process_item fuel' s t e d = Some (Inr (Some it)))
             (filter (\<lambda>e. \<not> skip_condition s t e) (sort (map (\<lambda>n. p @ [n]) names))) new"
    by auto
  from list_all2_paths [OF new]
  have paths: "map item_path new =
      map (\<lambda>n. p @ [n]) (filter (\<lambda>n. \<not> skip_loop s n (exclude t)) (sort names))"
    by (simp add: sort_child_paths filter_map comp_def)
  have "map item_name new = map (\<lambda>q. path_name q) (map item_path new)"
    by (simp add: item_name_def)
  also have "\<dots> = filter (\<lambda>n. \<not> skip_loop s n (exclude t)) (sort names)"
    unfolding paths by (simp add: comp_def path_name_def)
  finally have names_eq:
    "map item_name new = filter (\<lambda>n. \<not> skip_loop s n (exclude t)) (sort names)" .
  moreover have "sorted (filter (\<lambda>n. \<not> skip_loop s n (exclude t)) (sort names))"
    by (rule sorted_wrt_filter) simp
  moreover have "map item_path new = map (\<lambda>n. p @ [n]) (map item_name new)"
    by (simp only: names_eq paths)
  ultimately show ?thesis using r names by (intro exI [of _ names] exI [of _ new]) simp
qed

lemma traverse_tree_children_sorted:
  "traverse_tree fuel s t (Directory p cs) d = Some (Inr r) \<Longrightarrow>
     \<exists>new. r = Directory p (cs @ new) \<and>
       (\<forall>c\<in>set new. \<forall>it\<in>set (c # descendants c). sorted (map item_name (children it)))"
proof (induction fuel arbitrary: p cs d r)
  case 0
  then show ?case by simp
next
  case (Suc fuel)
  from traverse_tree_Directory [OF Suc.prems] obtain names new where
    r: "r = Directory p (cs @ new)" and
    new: "list_all2 (\<lambda>e it. process_item fuel s t e d = Some (Inr (Some it)))
             (filter (\<lambda>e. \<not> skip_condition s t e) (sort (map (\<lambda>n. p @ [n]) names))) new"
    by auto
  have "sorted (map item_name (children it))"
    if c: "c \<in> set new" and it: "it \<in> set (c # descendants c)" for c it
  proof -
    from list_all2_rightD [OF new c] obtain e where
      pi: "process_item fuel s t e d = Some (Inr (Some c))" by blast
    from process_item_cases [OF pi]
    consider (expand) "traverse_tree fuel s t (Directory e []) (d + 1) = Some (Inr c)"
      | (leaf) "children c = []"
      by auto
    then show ?thesis
    proof cases
      case expand
      from traverse_tree_level [OF expand] obtain new1 where
        c1: "c = Directory e ([] @ new1)" and s1: "sorted (map item_name new1)"
        by blast
      from Suc.IH [OF expand] obtain new2 where
        c2: "c = Directory e ([] @ new2)" and
        sub: "\<forall>c'\<in>set new2. \<forall>it\<in>set (c' # descendants c').
                sorted (map item_name (children it))"
        by blast
      from c1 c2 have eq: "new2 = new1" by simp
      show ?thesis
      proof (cases "it = c")
        case True
        with c1 s1 show ?thesis by simp
      next
        case False
        with it c2 obtain c' where "c' \<in> set new2" "it \<in> set (c' # descendants c')"
          by auto
        with sub show ?thesis by blast
      qed
    next
      case leaf
      then have "descendants c = []" by (cases c) auto
      with it leaf show ?thesis by simp
    qed
  qed
  with r show ?case by blast
qed

lemma process_item_depth_total:
  "(\<And>ns. fuel \<le> length ns \<Longrightarrow> path_is_dir s (e @ ns) \<noteq> Inr True) \<Longrightarrow>
     process_item fuel s t e d \<noteq> None"
proof (induction fuel arbitrary: e d)
  case 0
  from 0 [of "[]"] have "path_is_dir s e \<noteq> Inr True" by simp
  then show ?case
    by (auto simp: process_item.simps split: sum.splits bool.splits)
next
  case (Suc fuel)
  have sub: "process_item fuel s t e' (d + 1) \<noteq> None"
    if "e' \<in> set (map (\<lambda>n. e @ [n]) names)" for e' names
  proof -
    from that obtain n where e': "e' = e @ [n]" by auto
    show ?thesis
    proof (rule Suc.IH)
      fix ns :: path assume "fuel \<le> length ns"
      then have "Suc fuel \<le> length (n # ns)" by simp
      from Suc.prems [OF this] show "path_is_dir s (e' @ ns) \<noteq> Inr True" by (simp add: e')
    qed
  qed
  have "traverse_tree (Suc fuel) s t (Directory e []) (d + 1) \<noteq> None"
  proof (cases "os_listdir s e")
    case (Inl err)
    then show ?thesis by (simp add: path_iterdir_def)
  next
    case (Inr names)
    have "traverse_loop fuel s t (sort (map (\<lambda>n. e @ [n]) names)) (d + 1) (Directory e []) \<noteq> None"
      by (rule traverse_loop_total) (rule sub, simp)
    with Inr show ?thesis by (simp add: path_iterdir_def)
  qed
  then obtain res where "traverse_tree (Suc fuel) s t (Directory e []) (d + 1) = Some res"
    by blast
  then show ?case
    by (simp add: process_item.simps del: traverse_tree.simps
          split: sum.splits bool.splits option.splits)
qed

lemma traverse_tree_depth_total:
  assumes "\<And>ns. fuel < length ns \<Longrightarrow> path_is_dir s (item_path r @ ns) \<noteq> Inr True"
  shows "traverse_tree (Suc fuel) s t r d \<noteq> None"
proof (cases "os_listdir s (item_path r)")
  case (Inl err)
  then show ?thesis by (simp add: path_iterdir_def)
next
  case (Inr names)
  have "process_item fuel s t e' d \<noteq> None"
    if "e' \<in> set (sort (map (\<lambda>n. item_path r @ [n]) names))" for e'
  proof -
    from that obtain n where e': "e' = item_path r @ [n]" by auto
    show ?thesis
    proof (rule process_item_depth_total)
      fix ns :: path assume "fuel \<le> length ns"
      then have "fuel < length (n # ns)" by simp
      from assms [OF this] show "path_is_dir s (e' @ ns) \<noteq> Inr True" by (simp add: e')
    qed
  qed
  then have "traverse_loop fuel s t (sort (map (\<lambda>n. item_path r @ [n]) names)) d r \<noteq> None"
    by (rule traverse_loop_total)
  with Inr show ?thesis by (simp add: path_iterdir_def)
qed

lemma traverse_loop_no_raise:
  "(\<And>e err. e \<in> set es \<Longrightarrow> process_item fuel s t e d \<noteq> Some (Inl err)) \<Longrightarrow>
     traverse_loop fuel s t es d (Directory p cs) \<noteq> Some (Inl err)"
proof (induction es arbitrary: cs)
  case Nil
  then show ?case by simp
next
  case (Cons e es)
  have 1: "process_item fuel s t e d \<noteq> Some (Inl err')" for err'
    by (rule Cons.prems) simp
  have 2: "traverse_loop fuel s t es d (Directory p cs') \<noteq> Some (Inl err)" for cs'
    by (rule Cons.IH) (simp add: Cons.prems)
  from 1 2 show ?case
    by (auto split: option.splits sum.splits)
qed

lemma no_raise:
  assumes ok: "\<And>q. (\<exists>b. path_is_dir s q = Inr b) \<and> (\<exists>b. path_is_symlink s q = Inr b) \<and>
             (path_is_symlink s q = Inr True \<longrightarrow> (\<exists>target. os_readlink s q = Inr target)) \<and>
             (path_is_dir s q = Inr True \<longrightarrow> (\<exists>ns. os_listdir s q = Inr ns))"
  shows "process_item fuel s t e d \<noteq> Some (Inl err) \<and>
         ((\<exists>ns. os_listdir s p = Inr ns) \<longrightarrow>
            traverse_tree fuel s t (Directory p cs) d \<noteq> Some (Inl err))"
proof (induction fuel arbitrary: e d p cs err)
  case 0
  from ok [of e] show ?case
    by (auto simp: process_item.simps split: sum.splits bool.splits)
next
  case (Suc fuel)
  have tt: "traverse_tree (Suc fuel) s t (Directory p' cs') d' \<noteq> Some (Inl err')"
    if "os_listdir s p' = Inr ns" for p' cs' d' err' ns
  proof -
    have "traverse_loop fuel s t (sort (map (\<lambda>n. p' @ [n]) ns)) d' (Directory p' cs')
            \<noteq> Some (Inl err')"
      by (rule traverse_loop_no_raise) (use Suc.IH in blast)
    with that show ?thesis by (simp add: path_iterdir_def)
  qed
  have "process_item (Suc fuel) s t e d \<noteq> Some (Inl err)"
  proof (cases "path_is_dir s e = Inr True")
    case True
    with ok [of e] obtain ns where "os_listdir s e = Inr ns" by blast
    from tt [OF this] have "traverse_tree (Suc fuel) s t (Directory e []) (d + 1) \<noteq> Some (Inl err)"
      by blast
    with True show ?thesis
      by (auto simp: process_item.simps simp del: traverse_tree.simps
            split: sum.splits bool.splits option.splits)
  next
    case False
    with ok [of e] show ?thesis
      by (auto simp: process_item.simps simp del: traverse_tree.simps
            split: sum.splits bool.splits)
  qed
  with tt show ?case by blast
qed

lemmas walk_eval =
  example_sys_def table_sys_def example_table_def process_item.simps path_iterdir_def
  break_condition_def skip_condition_def path_name_def

lemma process_item_cutoff_agree:
  assumes "\<not> break_condition t d" and "fnmatch s' = fnmatch s"
    and "path_is_dir s' e = path_is_dir s e"
    and "path_is_symlink s' e = path_is_symlink s e"
    and "os_readlink s' e = os_readlink s e"
  shows "process_item fuel' s' t e d = process_item fuel s t e d"
  using assms(1,3,4,5)
  by (simp add: process_item.simps skip_condition_def skip_loop_fnmatch [OF assms(2)]
        split: sum.splits bool.splits option.splits)

lemma traverse_loop_success:
  "(\<And>e. e \<in> set es \<Longrightarrow> \<exists>res. process_item fuel s t e d = Some (Inr res)) \<Longrightarrow>
     \<exists>r. traverse_loop fuel s t es d (Directory p cs) = Some (Inr r)"
proof (induction es arbitrary: cs)
  case Nil
  then show ?case by simp
next
  case (Cons e es)
  from Cons.prems obtain res where res: "process_item fuel s t e d = Some (Inr res)"
    by auto
  have "\<exists>r. traverse_loop fuel s t es d (Directory p cs') = Some (Inr r)" for cs'
    by (rule Cons.IH) (simp add: Cons.prems)
  with res show ?case by (cases res) auto
qed

lemma process_item_cutoff_success:
  assumes "\<not> break_condition t d"
    and "\<not> skip_condition s t e \<Longrightarrow>
          \<exists>b. path_is_dir s e = Inr b \<and>
            (\<not> b \<longrightarrow> (\<exists>l. path_is_symlink s e = Inr l \<and>
                        (l \<longrightarrow> (\<exists>target. os_readlink s e = Inr target))))"
  shows "\<exists>res. process_item fuel s t e d = Some (Inr res)"
proof (cases "skip_condition s t e")
  case True
  then show ?thesis by (simp add: process_item.simps)
next
  case False
  from assms(2) [OF False] assms(1) False show ?thesis
    by (auto simp: process_item.simps split: sum.splits bool.splits option.splits)
qed

lemmas draw_eval =
  draw_None draw_Some_append draw_lines_Directory draw_lines_leaf child_row_def
  item_name_def path_name_def connector_of_def extension_of_def

text \<open>\<open>main\<close> on \<open>/tmp/t\<close>, with no depth limit and nothing excluded.\<close>

lemma main_root_example:
  "main_root (Suc (Suc 0)) example_sys ''/tmp/t'' None []
     \<lparr>graph = GraphTree (File []), stdout = []\<rparr> =
     Some (Inr \<lparr>graph = GraphTree example_tree,
                stdout = [''t/'',
      TreeElements_value FILE @ '' sub/'',
      [CHR 0xE2, CHR 0x94, CHR 0x82] @ ''   '' @ TreeElements_value LAST @ '' x.txt'',
      TreeElements_value LAST @ '' y.txt'']\<rparr>)"
  by (simp add: main_root_def Directory_init_def Tree_init_RootItem walk_eval example_tree_def
        draw_eval)

section \<open>Connectors\<close>

text \<open>
  C2, as stated, fails: drawing \<open>example_tree\<close> writes the line of \<open>sub\<close>, which is not
  the last child, with the glyph of \<open>FILE\<close>, which is not the glyph of \<open>LAST\<close>.
\<close>

theorem draw_connector_counterexample:
  "stdout (draw \<lparr>graph = GraphTree example_tree, stdout = []\<rparr> None [] True) =
     [''t/'',
      TreeElements_value FILE @ '' sub/'',
      [CHR 0xE2, CHR 0x94, CHR 0x82] @ ''   '' @ TreeElements_value LAST @ '' x.txt'',
      TreeElements_value LAST @ '' y.txt''] \<and>
   TreeElements_value FILE \<noteq> TreeElements_value LAST"
  by (simp add: example_tree_def draw_eval)

text \<open>
  C2 (amended): drawing a directory writes, for each child in the stored order, one line
  made of the prefix, the connector, a space and the child's label, followed by the lines
  of drawing that child under the extended prefix. The connector is the glyph of \<open>LAST\<close>
  for the last child and the glyph of \<open>FILE\<close> for every other child.
\<close>

theorem draw_rows:
  "stdout (draw w (Some (Directory p cs)) prefix il) =
     stdout w @
     concat (map (\<lambda>(i, child).
        (prefix @ TreeElements_value (if int i = int (length cs) - 1 then LAST else FILE) @
           '' '' @ row_label child) #
        stdout (draw \<lparr>graph = graph w, stdout = []\<rparr> (Some child)
                  (prefix @ (if int i = int (length cs) - 1 then ''    ''
                             else [CHR 0xE2, CHR 0x94, CHR 0x82] @ ''   ''))
                  (int i = int (length cs) - 1)))
        (enumerate 0 cs))"
proof -
  have eq: "(int i = int (length cs) - 1) = (Suc i = length cs)" for i
    by auto
  have "draw_lines (Directory p cs) prefix = concat (map (\<lambda>(i, child).
        (prefix @ TreeElements_value (if int i = int (length cs) - 1 then LAST else FILE) @
           '' '' @ row_label child) #
        stdout (draw \<lparr>graph = graph w, stdout = []\<rparr> (Some child)
                  (prefix @ (if int i = int (length cs) - 1 then ''    ''
                             else [CHR 0xE2, CHR 0x94, CHR 0x82] @ ''   ''))
                  (int i = int (length cs) - 1)))
        (enumerate 0 cs))"
    unfolding draw_lines_Directory
    by (intro arg_cong [where f = concat] map_cong)
       (auto simp: eq draw_Some_append child_row_label connector_of_def extension_of_def)
  then show ?thesis by (simp add: draw_Some_append)
qed

theorem draw_rows_witness:
  "stdout (draw \<lparr>graph = GraphTree example_tree, stdout = [''t/'']\<rparr>
             (Some example_tree) [] True) =
     [''t/'',
      TreeElements_value FILE @ '' sub/'',
      [CHR 0xE2, CHR 0x94, CHR 0x82] @ ''   '' @ TreeElements_value LAST @ '' x.txt'',
      TreeElements_value LAST @ '' y.txt'']"
  using draw_rows [of "\<lparr>graph = GraphTree example_tree, stdout = [''t/'']\<rparr>"
      "[''tmp'', ''t'']"
      "[Directory [''tmp'', ''t'', ''sub''] [File [''tmp'', ''t'', ''sub'', ''x.txt'']],
        File [''tmp'', ''t'', ''y.txt'']]" "[]" True]
  by (simp add: example_tree_def draw_eval)

section \<open>Drawing reads the tree and appends to the output\<close>

text \<open>
  C8: \<open>draw\<close> leaves the \<open>GraphTree\<close> and its items as they were, and what it appends to
  standard output does not depend on what was written before; so a second call on the
  same tree appends the same lines as the first.
\<close>

theorem draw_twice:
  "graph (draw w None prefix il) = graph w \<and>
   stdout (draw w None prefix il) =
     stdout w @ stdout (draw (w\<lparr>stdout := []\<rparr>) None prefix il) \<and>
   graph (draw (draw w None prefix il) None prefix il) = graph w \<and>
   stdout (draw (draw w None prefix il) None prefix il) =
     stdout w @ stdout (draw (w\<lparr>stdout := []\<rparr>) None prefix il)
              @ stdout (draw (w\<lparr>stdout := []\<rparr>) None prefix il)"
  by (simp add: draw_None)

theorem draw_twice_witness:
  "stdout (draw (draw \<lparr>graph = GraphTree example_tree, stdout = []\<rparr> None [] True)
             None [] True) =
     [''t/'',
      TreeElements_value FILE @ '' sub/'',
      [CHR 0xE2, CHR 0x94, CHR 0x82] @ ''   '' @ TreeElements_value LAST @ '' x.txt'',
      TreeElements_value LAST @ '' y.txt'',
      ''t/'',
      TreeElements_value FILE @ '' sub/'',
      [CHR 0xE2, CHR 0x94, CHR 0x82] @ ''   '' @ TreeElements_value LAST @ '' x.txt'',
      TreeElements_value LAST @ '' y.txt'']"
  using draw_twice [of "\<lparr>graph = GraphTree example_tree, stdout = []\<rparr>" "[]" True]
  by (simp add: example_tree_def draw_eval)

section \<open>The depth limit\<close>

text \<open>
  C4, as stated, fails: with \<open>max_depth = 1\<close> the walk of \<open>/tmp/t\<close> from depth 0 expands
  the subdirectory \<open>sub\<close>, a direct child of the root, and appends it with its child
  \<open>x.txt\<close>.
\<close>

theorem max_depth_1_counterexample:
  "traverse_tree (Suc (Suc 0)) example_sys
     \<lparr>root = Directory [''tmp'', ''t''] [], max_depth = Some 1, exclude = []\<rparr>
     (Directory [''tmp'', ''t''] []) 0 =
   Some (Inr (Directory [''tmp'', ''t'']
               [Directory [''tmp'', ''t'', ''sub''] [File [''tmp'', ''t'', ''sub'', ''x.txt'']],
                File [''tmp'', ''t'', ''y.txt'']])) \<and>
   path_is_dir example_sys [''tmp'', ''t'', ''sub''] = Inr True \<and>
   children (Directory [''tmp'', ''t'', ''sub''] [File [''tmp'', ''t'', ''sub'', ''x.txt'']]) \<noteq> []"
  by (simp add: walk_eval)

text \<open>
  C4 (amended): with \<open>max_depth = 1\<close> the walk from depth 0 returns (two units of fuel
  are enough); it appends the root's entries that are not excluded, in sorted order; every
  directory among them is expanded by one level, its children being its own entries that
  are not excluded, in sorted order; and every item below that has no children.
\<close>

theorem traverse_tree_max_depth_1:
  assumes "max_depth t = Some 1"
  shows "traverse_tree (Suc (Suc fuel)) s t (Directory p cs) 0 \<noteq> None \<and>
    (\<forall>r. traverse_tree (Suc (Suc fuel)) s t (Directory p cs) 0 = Some (Inr r) \<longrightarrow>
       (\<exists>names new. os_listdir s p = Inr names \<and> r = Directory p (cs @ new) \<and>
          map item_path new =
            filter (\<lambda>e. \<not> skip_condition s t e) (sort (map (\<lambda>n. p @ [n]) names)) \<and>
          (\<forall>c\<in>set new.
             (is_directory c \<longrightarrow>
                (\<exists>sub. os_listdir s (item_path c) = Inr sub \<and>
                   map item_path (children c) =
                     filter (\<lambda>e. \<not> skip_condition s t e)
                       (sort (map (\<lambda>n. item_path c @ [n]) sub)))) \<and>
             (\<forall>g\<in>set (children c). children g = []))))"
proof (intro conjI allI impI)
  show "traverse_tree (Suc (Suc fuel)) s t (Directory p cs) 0 \<noteq> None"
    using assms by (intro traverse_tree_max_depth_total) auto
next
  fix r assume res: "traverse_tree (Suc (Suc fuel)) s t (Directory p cs) 0 = Some (Inr r)"
  from assms have cut: "\<not> break_condition t 1" by (simp add: break_condition_def)
  from traverse_tree_Directory [OF res] obtain names new where
    names: "os_listdir s p = Inr names" and r: "r = Directory p (cs @ new)" and
    new: "list_all2 (\<lambda>e it. process_item (Suc fuel) s t e 0 = Some (Inr (Some it)))
             (filter (\<lambda>e. \<not> skip_condition s t e) (sort (map (\<lambda>n. p @ [n]) names))) new"
    by auto
  have child: "(is_directory c \<longrightarrow>
                (\<exists>sub. os_listdir s (item_path c) = Inr sub \<and>
                   map item_path (children c) =
                     filter (\<lambda>e. \<not> skip_condition s t e)
                       (sort (map (\<lambda>n. item_path c @ [n]) sub)))) \<and>
             (\<forall>g\<in>set (children c). children g = [])" if c: "c \<in> set new" for c
  proof -
    from list_all2_rightD [OF new c] obtain e where
      pi: "process_item (Suc fuel) s t e 0 = Some (Inr (Some c))" by blast
    from process_item_cases [OF pi]
    consider (expand) "traverse_tree (Suc fuel) s t (Directory e []) (0 + 1) = Some (Inr c)"
      | (cutoff) "c = Directory e []" "\<not> break_condition t 0"
      | (leaf) "\<not> is_directory c" "children c = []"
      by auto
    then show ?thesis
    proof cases
      case expand
      from traverse_tree_Directory [OF expand] obtain sub new' where
        sub: "os_listdir s e = Inr sub" and c': "c = Directory e ([] @ new')" and
        new': "list_all2 (\<lambda>e' it. process_item fuel s t e' (0 + 1) = Some (Inr (Some it)))
             (filter (\<lambda>e'. \<not> skip_condition s t e') (sort (map (\<lambda>n. e @ [n]) sub))) new'"
        by auto
      have "children g = []" if "g \<in> set new'" for g
        using list_all2_rightD [OF new' that] process_item_cutoff(2) [of t "0 + 1"] cut
        by auto
      with sub c' list_all2_paths [OF new'] show ?thesis by auto
    next
      case cutoff
      with assms show ?thesis by (simp add: break_condition_def)
    next
      case leaf
      then show ?thesis by simp
    qed
  qed
  from names r list_all2_paths [OF new] child
  show "\<exists>names new. os_listdir s p = Inr names \<and> r = Directory p (cs @ new) \<and>
          map item_path new =
            filter (\<lambda>e. \<not> skip_condition s t e) (sort (map (\<lambda>n. p @ [n]) names)) \<and>
          (\<forall>c\<in>set new.
             (is_directory c \<longrightarrow>
                (\<exists>sub. os_listdir s (item_path c) = Inr sub \<and>
                   map item_path (children c) =
                     filter (\<lambda>e. \<not> skip_condition s t e)
                       (sort (map (\<lambda>n. item_path c @ [n]) sub)))) \<and>
             (\<forall>g\<in>set (children c). children g = []))"
    by blast
qed

theorem traverse_tree_max_depth_1_witness:
  "max_depth \<lparr>root = Directory [''tmp'', ''d''] [], max_depth = Some 1, exclude = []\<rparr> = Some 1 \<and>
   traverse_tree (Suc (Suc 0)) example_sys
     \<lparr>root = Directory [''tmp'', ''d''] [], max_depth = Some 1, exclude = []\<rparr>
     (Directory [''tmp'', ''d''] []) 0 =
   Some (Inr (Directory [''tmp'', ''d'']
               [Directory [''tmp'', ''d'', ''a'']
                  [Directory [''tmp'', ''d'', ''a'', ''b''] [],
                   File [''tmp'', ''d'', ''a'', ''f'']]]))"
  using traverse_tree_max_depth_1
    [of "\<lparr>root = Directory [''tmp'', ''d''] [], max_depth = Some 1, exclude = []\<rparr>"
        0 example_sys "[''tmp'', ''d'']" "[]"]
  by (simp add: walk_eval)

text \<open>
  C10: with \<open>max_depth = 0\<close> the walk of a directory that can be listed returns (one unit
  of fuel is enough). If it returns a tree, the items appended are the root's entries that
  are not excluded, in sorted order, and each of them has no children. It returns a tree
  whenever no call of the operating system on a direct entry raises. Its result is the
  same on every system that agrees on the root's listing and on the direct entries, which
  is to say that nothing deeper is looked at.
\<close>

theorem traverse_tree_max_depth_0:
  assumes "max_depth t = Some 0" and "os_listdir s p = Inr names"
  shows "\<exists>res. traverse_tree (Suc fuel) s t (Directory p cs) 0 = Some res \<and>
           (\<forall>r. res = Inr r \<longrightarrow>
              (\<exists>new. r = Directory p (cs @ new) \<and>
                 map item_path new =
                   filter (\<lambda>e. \<not> skip_condition s t e) (sort (map (\<lambda>n. p @ [n]) names)) \<and>
                 (\<forall>c\<in>set new. children c = []))) \<and>
           ((\<forall>n\<in>set names. \<not> skip_condition s t (p @ [n]) \<longrightarrow>
                (\<exists>b. path_is_dir s (p @ [n]) = Inr b \<and>
                   (\<not> b \<longrightarrow> (\<exists>l. path_is_symlink s (p @ [n]) = Inr l \<and>
                      (l \<longrightarrow> (\<exists>target. os_readlink s (p @ [n]) = Inr target)))))) \<longrightarrow>
              (\<exists>r. res = Inr r)) \<and>
           (\<forall>s' :: sys. fnmatch s' = fnmatch s \<and> os_listdir s' p = os_listdir s p \<and>
                 (\<forall>n\<in>set names.
                    path_is_dir s' (p @ [n]) = path_is_dir s (p @ [n]) \<and>
                    path_is_symlink s' (p @ [n]) = path_is_symlink s (p @ [n]) \<and>
                    os_readlink s' (p @ [n]) = os_readlink s (p @ [n])) \<longrightarrow>
                 traverse_tree (Suc fuel) s' t (Directory p cs) 0 = Some res)"
proof -
  let ?es = "sort (map (\<lambda>n. p @ [n]) names)"
  from assms(1) have cut: "\<not> break_condition t 0" by (simp add: break_condition_def)
  have unfold: "traverse_tree (Suc fuel) s t (Directory p cs) 0 =
                  traverse_loop fuel s t ?es 0 (Directory p cs)"
    using assms(2) by (simp add: path_iterdir_def)
  from assms(1) have "traverse_tree (Suc fuel) s t (Directory p cs) 0 \<noteq> None"
    by (intro traverse_tree_max_depth_total) auto
  then obtain res where res: "traverse_tree (Suc fuel) s t (Directory p cs) 0 = Some res"
    by blast
  have shape: "\<exists>new. r = Directory p (cs @ new) \<and>
                 map item_path new = filter (\<lambda>e. \<not> skip_condition s t e) ?es \<and>
                 (\<forall>c\<in>set new. children c = [])" if "res = Inr r" for r
  proof -
    from that res unfold
    have "traverse_loop fuel s t ?es 0 (Directory p cs) = Some (Inr r)" by simp
    from traverse_loop_Directory [OF this] obtain new where
      r: "r = Directory p (cs @ new)" and
      new: "list_all2 (\<lambda>e it. process_item fuel s t e 0 = Some (Inr (Some it)))
              (filter (\<lambda>e. \<not> skip_condition s t e) ?es) new"
      by blast
    have "children c = []" if "c \<in> set new" for c
      using list_all2_rightD [OF new that] process_item_cutoff(2) [OF cut] by blast
    with r list_all2_paths [OF new] show ?thesis by blast
  qed
  have success: "\<exists>r. res = Inr r"
    if ok: "\<forall>n\<in>set names. \<not> skip_condition s t (p @ [n]) \<longrightarrow>
                (\<exists>b. path_is_dir s (p @ [n]) = Inr b \<and>
                   (\<not> b \<longrightarrow> (\<exists>l. path_is_symlink s (p @ [n]) = Inr l \<and>
                      (l \<longrightarrow> (\<exists>target. os_readlink s (p @ [n]) = Inr target)))))"
  proof -
    have "\<exists>r. traverse_loop fuel s t ?es 0 (Directory p cs) = Some (Inr r)"
    proof (rule traverse_loop_success)
      fix e assume "e \<in> set ?es"
      then obtain n where "n \<in> set names" "e = p @ [n]" by auto
      with ok show "\<exists>res. process_item fuel s t e 0 = Some (Inr res)"
        by (intro process_item_cutoff_success [OF cut]) blast
    qed
    with res unfold show ?thesis by auto
  qed
  have indep: "traverse_tree (Suc fuel) s' t (Directory p cs) 0 = Some res"
    if fn: "fnmatch s' = fnmatch s" and ls: "os_listdir s' p = os_listdir s p"
      and loc: "\<forall>n\<in>set names.
                    path_is_dir s' (p @ [n]) = path_is_dir s (p @ [n]) \<and>
                    path_is_symlink s' (p @ [n]) = path_is_symlink s (p @ [n]) \<and>
                    os_readlink s' (p @ [n]) = os_readlink s (p @ [n])" for s' :: sys
  proof -
    have "traverse_loop fuel s' t ?es 0 (Directory p cs) =
          traverse_loop fuel s t ?es 0 (Directory p cs)"
    proof (rule traverse_loop_cong)
      fix e assume "e \<in> set ?es"
      then obtain n where "n \<in> set names" "e = p @ [n]" by auto
      with loc show "process_item fuel s' t e 0 = process_item fuel s t e 0"
        by (intro process_item_cutoff_agree [OF cut fn]) auto
    qed
    with ls assms(2) res unfold show ?thesis by (simp add: path_iterdir_def)
  qed
  show ?thesis
  proof (intro exI [of _ res] conjI allI impI)
    show "traverse_tree (Suc fuel) s t (Directory p cs) 0 = Some res" by (rule res)
  next
    fix r assume "res = Inr r"
    then show "\<exists>new. r = Directory p (cs @ new) \<and>
                 map item_path new = filter (\<lambda>e. \<not> skip_condition s t e) ?es \<and>
                 (\<forall>c\<in>set new. children c = [])"
      by (rule shape)
  next
    assume "\<forall>n\<in>set names. \<not> skip_condition s t (p @ [n]) \<longrightarrow>
                (\<exists>b. path_is_dir s (p @ [n]) = Inr b \<and>
                   (\<not> b \<longrightarrow> (\<exists>l. path_is_symlink s (p @ [n]) = Inr l \<and>
                      (l \<longrightarrow> (\<exists>target. os_readlink s (p @ [n]) = Inr target)))))"
    then show "\<exists>r. res = Inr r" by (rule success)
  next
    fix s' :: sys
    assume "fnmatch s' = fnmatch s \<and> os_listdir s' p = os_listdir s p \<and>
                 (\<forall>n\<in>set names.
                    path_is_dir s' (p @ [n]) = path_is_dir s (p @ [n]) \<and>
                    path_is_symlink s' (p @ [n]) = path_is_symlink s (p @ [n]) \<and>
                    os_readlink s' (p @ [n]) = os_readlink s (p @ [n]))"
    then show "traverse_tree (Suc fuel) s' t (Directory p cs) 0 = Some res"
      using indep by blast
  qed
qed

theorem traverse_tree_max_depth_0_witness:
  "max_depth \<lparr>root = Directory [''tmp'', ''t''] [], max_depth = Some 0, exclude = []\<rparr> = Some 0 \<and>
   os_listdir example_sys [''tmp'', ''t''] = Inr [''y.txt'', ''sub''] \<and>
   traverse_tree (Suc 0) example_sys
     \<lparr>root = Directory [''tmp'', ''t''] [], max_depth = Some 0, exclude = []\<rparr>
     (Directory [''tmp'', ''t''] []) 0 =
   Some (Inr (Directory [''tmp'', ''t'']
               [Directory [''tmp'', ''t'', ''sub''] [], File [''tmp'', ''t'', ''y.txt'']]))"
  using traverse_tree_max_depth_0
    [of "\<lparr>root = Directory [''tmp'', ''t''] [], max_depth = Some 0, exclude = []\<rparr>"
        example_sys "[''tmp'', ''t'']" "[''y.txt'', ''sub'']" 0 "[]"]
  by (simp add: walk_eval)


section \<open>The order of the children\<close>

text \<open>
  C6: whenever the walk of a directory that can be listed returns a tree, the items it
  appended are the entries whose name matches no exclusion pattern, in ascending order of
  their names (the order of the code points, which is the order of \<open>sort\<close> on strings),
  and the same holds of the children of every directory below. The walk does return when
  \<open>max_depth\<close> bounds it or when no directory lies deeper than the fuel, and it returns a
  tree when, in addition, no call of the operating system raises. The entries \<open>b\<close>, \<open>A\<close>,
  \<open>a1\<close> of \<open>/tmp/s\<close> are built in the order \<open>A\<close>, \<open>a1\<close>, \<open>b\<close>, and the entries \<open>z\<close>, \<open>Y\<close>
  of the directory \<open>A\<close> in the order \<open>Y\<close>, \<open>z\<close>.
\<close>

theorem traverse_tree_sorted:
  assumes "os_listdir s p = Inr names"
  shows "(\<forall>fuel r. traverse_tree fuel s t (Directory p cs) d = Some (Inr r) \<longrightarrow>
            (\<exists>new. r = Directory p (cs @ new) \<and>
               map item_name new =
                 filter (\<lambda>n. \<forall>pat\<in>set (exclude t). \<not> fnmatch s n pat) (sort names) \<and>
               map item_path new = map (\<lambda>n. p @ [n]) (map item_name new) \<and>
               sorted (map item_name new) \<and>
               (\<forall>c\<in>set new. \<forall>it\<in>set (c # descendants c).
                  sorted (map item_name (children it))))) \<and>
         (\<forall>fuel. ((\<exists>m. max_depth t = Some m \<and> m - d \<le> int fuel) \<or>
                  (\<forall>ns. fuel < length ns \<longrightarrow> path_is_dir s (p @ ns) \<noteq> Inr True)) \<longrightarrow>
            (\<exists>res. traverse_tree (Suc fuel) s t (Directory p cs) d = Some res \<and>
               ((\<forall>q. (\<exists>b. path_is_dir s q = Inr b) \<and> (\<exists>b. path_is_symlink s q = Inr b) \<and>
                     (path_is_symlink s q = Inr True \<longrightarrow>
                        (\<exists>target. os_readlink s q = Inr target)) \<and>
                     (path_is_dir s q = Inr True \<longrightarrow> (\<exists>ns. os_listdir s q = Inr ns))) \<longrightarrow>
                (\<exists>r. res = Inr r))))"
proof (intro conjI allI impI)
  fix fuel r
  assume run: "traverse_tree fuel s t (Directory p cs) d = Some (Inr r)"
  from traverse_tree_level [OF run] obtain names' new where
    ls: "os_listdir s p = Inr names'" and
    r: "r = Directory p (cs @ new)" and
    lvl': "map item_name new = filter (\<lambda>n. \<not> skip_loop s n (exclude t)) (sort names')"
      "map item_path new = map (\<lambda>n. p @ [n]) (map item_name new)"
      "sorted (map item_name new)"
    by blast
  from ls assms have "names' = names" by simp
  with lvl' have lvl: "map item_name new = filter (\<lambda>n. \<not> skip_loop s n (exclude t)) (sort names)"
      "map item_path new = map (\<lambda>n. p @ [n]) (map item_name new)"
      "sorted (map item_name new)"
    by simp_all
  from traverse_tree_children_sorted [OF run] r
  have deep: "\<forall>c\<in>set new. \<forall>it\<in>set (c # descendants c). sorted (map item_name (children it))"
    by auto
  have "(\<lambda>n. \<not> skip_loop s n (exclude t)) = (\<lambda>n. \<forall>pat\<in>set (exclude t). \<not> fnmatch s n pat)"
    by (simp add: skip_loop_iff)
  with lvl have "map item_name new =
                 filter (\<lambda>n. \<forall>pat\<in>set (exclude t). \<not> fnmatch s n pat) (sort names)"
    by simp
  with r lvl deep
  show "\<exists>new. r = Directory p (cs @ new) \<and>
               map item_name new =
                 filter (\<lambda>n. \<forall>pat\<in>set (exclude t). \<not> fnmatch s n pat) (sort names) \<and>
               map item_path new = map (\<lambda>n. p @ [n]) (map item_name new) \<and>
               sorted (map item_name new) \<and>
               (\<forall>c\<in>set new. \<forall>it\<in>set (c # descendants c).
                  sorted (map item_name (children it)))"
    by blast
next
  fix fuel
  assume bounded: "(\<exists>m. max_depth t = Some m \<and> m - d \<le> int fuel) \<or>
                  (\<forall>ns. fuel < length ns \<longrightarrow> path_is_dir s (p @ ns) \<noteq> Inr True)"
  have "traverse_tree (Suc fuel) s t (Directory p cs) d \<noteq> None"
    using bounded
  proof
    assume "\<exists>m. max_depth t = Some m \<and> m - d \<le> int fuel"
    then obtain m where "max_depth t = Some m" "m - d \<le> int fuel" by blast
    then show ?thesis by (rule traverse_tree_max_depth_total)
  next
    assume "\<forall>ns. fuel < length ns \<longrightarrow> path_is_dir s (p @ ns) \<noteq> Inr True"
    then show ?thesis by (intro traverse_tree_depth_total) simp
  qed
  then obtain res where res: "traverse_tree (Suc fuel) s t (Directory p cs) d = Some res"
    by blast
  have "\<exists>r. res = Inr r"
    if ok: "\<forall>q. (\<exists>b. path_is_dir s q = Inr b) \<and> (\<exists>b. path_is_symlink s q = Inr b) \<and>
                     (path_is_symlink s q = Inr True \<longrightarrow>
                        (\<exists>target. os_readlink s q = Inr target)) \<and>
                     (path_is_dir s q = Inr True \<longrightarrow> (\<exists>ns. os_listdir s q = Inr ns))"
  proof (cases res)
    case (Inl err)
    have "traverse_tree (Suc fuel) s t (Directory p cs) d \<noteq> Some (Inl err)"
      using no_raise [of s "Suc fuel" t p d err p cs] ok assms by blast
    with res Inl show ?thesis by simp
  next
    case (Inr r)
    then show ?thesis by blast
  qed
  with res
  show "\<exists>res. traverse_tree (Suc fuel) s t (Directory p cs) d = Some res \<and>
               ((\<forall>q. (\<exists>b. path_is_dir s q = Inr b) \<and> (\<exists>b. path_is_symlink s q = Inr b) \<and>
                     (path_is_symlink s q = Inr True \<longrightarrow>
                        (\<exists>target. os_readlink s q = Inr target)) \<and>
                     (path_is_dir s q = Inr True \<longrightarrow> (\<exists>ns. os_listdir s q = Inr ns))) \<longrightarrow>
                (\<exists>r. res = Inr r))"
    by blast
qed

theorem traverse_tree_sorted_witness:
  "os_listdir example_sys [''tmp'', ''s''] = Inr [''b'', ''A'', ''a1''] \<and>
   os_listdir example_sys [''tmp'', ''s'', ''A''] = Inr [''z'', ''Y''] \<and>
   traverse_tree (Suc (Suc 0)) example_sys
     \<lparr>root = Directory [''tmp'', ''s''] [], max_depth = None, exclude = []\<rparr>
     (Directory [''tmp'', ''s''] []) 0 =
   Some (Inr (Directory [''tmp'', ''s'']
               [Directory [''tmp'', ''s'', ''A'']
                  [File [''tmp'', ''s'', ''A'', ''Y''], File [''tmp'', ''s'', ''A'', ''z'']],
                File [''tmp'', ''s'', ''a1''],
                File [''tmp'', ''s'', ''b'']])) \<and>
   map item_name
     [Directory [''tmp'', ''s'', ''A'']
        [File [''tmp'', ''s'', ''A'', ''Y''], File [''tmp'', ''s'', ''A'', ''z'']],
      File [''tmp'', ''s'', ''a1''],
      File [''tmp'', ''s'', ''b'']] = [''A'', ''a1'', ''b'']"
proof -
  let ?t = "\<lparr>root = Directory [''tmp'', ''s''] [], max_depth = None, exclude = []\<rparr>"
  let ?r = "Directory [''tmp'', ''s'']
               [Directory [''tmp'', ''s'', ''A'']
                  [File [''tmp'', ''s'', ''A'', ''Y''], File [''tmp'', ''s'', ''A'', ''z'']],
                File [''tmp'', ''s'', ''a1''],
                File [''tmp'', ''s'', ''b'']]"
  have ls: "os_listdir example_sys [''tmp'', ''s''] = Inr [''b'', ''A'', ''a1'']"
    by (simp add: walk_eval)
  have run: "traverse_tree (Suc (Suc 0)) example_sys ?t (Directory [''tmp'', ''s''] []) 0 =
               Some (Inr ?r)"
    by (simp add: walk_eval)
  have bound: "\<forall>ns. Suc 0 < length ns \<longrightarrow>
                 path_is_dir example_sys ([''tmp'', ''s''] @ ns) \<noteq> Inr True"
  proof (intro allI impI)
    fix ns :: path assume "Suc 0 < length ns"
    then obtain a b rest where ns: "ns = a # b # rest"
      by (cases ns; cases "tl ns") auto
    show "path_is_dir example_sys ([''tmp'', ''s''] @ ns) \<noteq> Inr True"
      unfolding ns by (simp add: walk_eval)
  qed
  have ok: "\<forall>q. (\<exists>b. path_is_dir example_sys q = Inr b) \<and>
                (\<exists>b. path_is_symlink example_sys q = Inr b) \<and>
                (path_is_symlink example_sys q = Inr True \<longrightarrow>
                   (\<exists>target. os_readlink example_sys q = Inr target)) \<and>
                (path_is_dir example_sys q = Inr True \<longrightarrow>
                   (\<exists>ns. os_listdir example_sys q = Inr ns))"
    by (simp add: example_sys_def table_sys_def split: option.splits node.splits)
  note inst = traverse_tree_sorted [OF ls, of ?t "[]" 0]
  from inst run have shape: "\<exists>new. ?r = Directory [''tmp'', ''s''] ([] @ new) \<and>
               map item_name new =
                 filter (\<lambda>n. \<forall>pat\<in>set (exclude ?t). \<not> fnmatch example_sys n pat)
                   (sort [''b'', ''A'', ''a1'']) \<and>
               map item_path new = map (\<lambda>n. [''tmp'', ''s''] @ [n]) (map item_name new) \<and>
               sorted (map item_name new) \<and>
               (\<forall>c\<in>set new. \<forall>it\<in>set (c # descendants c).
                  sorted (map item_name (children it)))"
    by blast
  from inst bound ok
  have returns: "\<exists>r. traverse_tree (Suc (Suc 0)) example_sys ?t
                        (Directory [''tmp'', ''s''] []) 0 = Some (Inr r)"
    by blast
  from ls run shape returns show ?thesis
    by (simp add: walk_eval item_name_def)
qed


section \<open>Symbolic links\<close>

text \<open>
  C1: \<open>process_item\<close> asks \<open>is_dir\<close> before \<open>is_symlink\<close>, and \<open>is_dir\<close> follows links. In
  \<open>/tmp/l\<close> the entry \<open>to_dir\<close> is a symbolic link to the directory \<open>dir\<close>: it is built as
  a \<open>Directory\<close> whose children are the entries of the target, not as a \<open>Link\<close>. The links
  \<open>to_file\<close> and \<open>dangling\<close>, which do not point to a directory, are built as \<open>Link\<close>
  items.
\<close>

theorem process_item_link_to_directory:
  "path_is_symlink example_sys [''tmp'', ''l'', ''to_dir''] = Inr True \<and>
   os_readlink example_sys [''tmp'', ''l'', ''to_dir''] = Inr ''dir'' \<and>
   process_item (Suc 0) example_sys
     \<lparr>root = Directory [''tmp'', ''l''] [], max_depth = None, exclude = []\<rparr>
     [''tmp'', ''l'', ''to_dir''] 0 =
     Some (Inr (Some (Directory [''tmp'', ''l'', ''to_dir'']
                        [File [''tmp'', ''l'', ''to_dir'', ''f'']]))) \<and>
   traverse_tree (Suc (Suc 0)) example_sys
     \<lparr>root = Directory [''tmp'', ''l''] [], max_depth = None, exclude = []\<rparr>
     (Directory [''tmp'', ''l''] []) 0 =
     Some (Inr (Directory [''tmp'', ''l'']
       [Link [''tmp'', ''l'', ''dangling''] ''nowhere'',
        Directory [''tmp'', ''l'', ''dir''] [File [''tmp'', ''l'', ''dir'', ''f'']],
        Directory [''tmp'', ''l'', ''to_dir''] [File [''tmp'', ''l'', ''to_dir'', ''f'']],
        Link [''tmp'', ''l'', ''to_file''] ''dir/f'']))"
  by (simp add: walk_eval)


text \<open>
  C7: the line drawn for the child at position \<open>i\<close> of a directory is the prefix, the
  connector, a space and the name, followed by \<open>/\<close> for a directory and by the arrow and
  the target for a link, and by nothing else; and the target of a \<open>Link\<close> that
  \<open>process_item\<close> builds is the string \<open>os.readlink\<close> returned for that entry.
\<close>

theorem link_rows:
  "(i < length cs \<longrightarrow>
      stdout (draw w (Some (Directory p cs)) prefix il) !
        (length (stdout w) + sum_list (map (\<lambda>c. Suc (count_rows c)) (take i cs))) =
      prefix @ TreeElements_value (if int i = int (length cs) - 1 then LAST else FILE) @ '' '' @
        (case cs ! i of
           Link q target \<Rightarrow> item_name (cs ! i) @ '' -> '' @ target
         | Directory q gs \<Rightarrow> item_name (cs ! i) @ ''/''
         | File q \<Rightarrow> item_name (cs ! i))) \<and>
   (process_item fuel s t e d = Some (Inr (Some (Link q' target'))) \<longrightarrow>
      q' = e \<and> path_is_symlink s e = Inr True \<and> os_readlink s e = Inr target')"
proof -
  have rows: "stdout (draw w (Some (Directory p cs)) prefix il) !
        (length (stdout w) + sum_list (map (\<lambda>c. Suc (count_rows c)) (take i cs))) =
      prefix @ TreeElements_value (if int i = int (length cs) - 1 then LAST else FILE) @ '' '' @
        (case cs ! i of
           Link q target \<Rightarrow> item_name (cs ! i) @ '' -> '' @ target
         | Directory q gs \<Rightarrow> item_name (cs ! i) @ ''/''
         | File q \<Rightarrow> item_name (cs ! i))" if i: "i < length cs"
  proof -
    have eq: "(int i = int (length cs) - 1) = (Suc i = length cs)" by auto
    have "stdout (draw w (Some (Directory p cs)) prefix il) !
          (length (stdout w) + sum_list (map (\<lambda>c. Suc (count_rows c)) (take i cs))) =
          draw_lines (Directory p cs) prefix !
            sum_list (map (\<lambda>c. Suc (count_rows c)) (take i cs))"
      by (simp add: draw_Some_append)
    also have "\<dots> = child_row prefix (Suc i = length cs) (cs ! i)"
      using i by (rule draw_lines_child_row)
    finally show ?thesis
      by (simp add: eq child_row_def connector_of_def split: item.splits)
  qed
  have built: "q' = e \<and> path_is_symlink s e = Inr True \<and> os_readlink s e = Inr target'"
    if pi: "process_item fuel s t e d = Some (Inr (Some (Link q' target')))"
  proof -
    from process_item_path [OF pi] have "q' = e" by simp
    moreover from process_item_cases [OF pi]
    have "path_is_symlink s e = Inr True \<and> os_readlink s e = Inr target'"
      by (auto dest!: traverse_tree_Directory)
    ultimately show ?thesis by simp
  qed
  from rows built show ?thesis by blast
qed

theorem link_rows_witness:
  "(1::nat) < length [Directory [''tmp'', ''l'', ''dir''] [File [''tmp'', ''l'', ''dir'', ''f'']],
                      Link [''tmp'', ''l'', ''to_file''] ''dir/f''] \<and>
   stdout (draw \<lparr>graph = GraphTree (File []), stdout = [''l/'']\<rparr>
     (Some (Directory [''tmp'', ''l'']
        [Directory [''tmp'', ''l'', ''dir''] [File [''tmp'', ''l'', ''dir'', ''f'']],
         Link [''tmp'', ''l'', ''to_file''] ''dir/f''])) [] True) ! 3 =
     TreeElements_value LAST @ '' to_file -> dir/f'' \<and>
   process_item 0 example_sys
     \<lparr>root = Directory [''tmp'', ''l''] [], max_depth = None, exclude = []\<rparr>
     [''tmp'', ''l'', ''to_file''] 0 =
     Some (Inr (Some (Link [''tmp'', ''l'', ''to_file''] ''dir/f''))) \<and>
   os_readlink example_sys [''tmp'', ''l'', ''to_file''] = Inr ''dir/f''"
  using link_rows
    [of 1 "[Directory [''tmp'', ''l'', ''dir''] [File [''tmp'', ''l'', ''dir'', ''f'']],
            Link [''tmp'', ''l'', ''to_file''] ''dir/f'']"
        "\<lparr>graph = GraphTree (File []), stdout = [''l/'']\<rparr>" "[''tmp'', ''l'']" "[]" True
        0 example_sys "\<lparr>root = Directory [''tmp'', ''l''] [], max_depth = None, exclude = []\<rparr>"
        "[''tmp'', ''l'', ''to_file'']" 0 "[''tmp'', ''l'', ''to_file'']" "''dir/f''"]
  by (simp add: walk_eval draw_eval)


section \<open>The root\<close>

text \<open>
  C3: \<open>validate_root\<close> wraps a root given as a string in a \<open>Directory\<close> item and then
  checks the class of the item, never the filesystem. For \<open>/tmp/missing\<close>, where nothing
  exists, and for \<open>/tmp/t/y.txt\<close>, a regular file, \<open>Tree\<close> is constructed without an error;
  the walk that follows fails when it lists the root.
\<close>

theorem Tree_init_missing_root:
  "path_is_dir example_sys [''tmp'', ''missing''] = Inr False \<and>
   Tree_init example_sys (RootStr ''/tmp/missing'') None None =
     Inr \<lparr>root = Directory [''tmp'', ''missing''] [], max_depth = None, exclude = []\<rparr> \<and>
   traverse_tree (Suc 0) example_sys
     \<lparr>root = Directory [''tmp'', ''missing''] [], max_depth = None, exclude = []\<rparr>
     (Directory [''tmp'', ''missing''] []) 0 = Some (Inl (OSError ''ENOENT'')) \<and>
   path_is_dir example_sys [''tmp'', ''t'', ''y.txt''] = Inr False \<and>
   Tree_init example_sys (RootStr ''/tmp/t/y.txt'') None None =
     Inr \<lparr>root = Directory [''tmp'', ''t'', ''y.txt''] [], max_depth = None, exclude = []\<rparr> \<and>
   traverse_tree (Suc 0) example_sys
     \<lparr>root = Directory [''tmp'', ''t'', ''y.txt''] [], max_depth = None, exclude = []\<rparr>
     (Directory [''tmp'', ''t'', ''y.txt''] []) 0 = Some (Inl (OSError ''ENOTDIR'')) \<and>
   main_root (Suc 0) example_sys ''/tmp/missing'' None []
     \<lparr>graph = GraphTree (File []), stdout = []\<rparr> = Some (Inl (OSError ''ENOENT''))"
  by (simp add: walk_eval Tree_init_def validate_root_def Directory_init_def main_root_def)

section \<open>Exclusion\<close>

text \<open>
  C5: in the tree a walk builds from an empty directory item, no item has a name that
  \<open>fnmatch\<close> matches against any pattern of the exclusion list, and every component of an
  item's path below the root is a name that matches none: nothing at or below an excluded
  entry is in the tree. Every line drawn below the root is the line of one of those items.
  The walk gives the same result on every system that agrees outside the excluded entries
  and what lies below them, which is to say that these are never looked at. The test holds
  exactly when some pattern matches the base name, and \<open>process_item\<close> then returns
  \<open>None\<close> before any other call.
\<close>

theorem excluded_entries:
  assumes "traverse_tree fuel s t (Directory p []) d = Some (Inr r)"
  shows "(\<forall>it\<in>set (descendants r).
            (\<forall>pat\<in>set (exclude t). \<not> fnmatch s (item_name it) pat) \<and>
            (\<exists>ns. ns \<noteq> [] \<and> item_path it = p @ ns \<and>
                  (\<forall>n\<in>set ns. \<forall>pat\<in>set (exclude t). \<not> fnmatch s n pat))) \<and>
         (\<forall>line\<in>set (draw_lines r prefix).
            \<exists>pre b it. it \<in> set (descendants r) \<and>
              line = pre @ TreeElements_value (if b then LAST else FILE) @ '' '' @ row_label it) \<and>
         (\<forall>s' :: sys.
            fnmatch s' = fnmatch s \<and>
            (\<forall>ns. (\<forall>n\<in>set ns. \<forall>pat\<in>set (exclude t). \<not> fnmatch s n pat) \<longrightarrow>
               path_is_dir s' (p @ ns) = path_is_dir s (p @ ns) \<and>
               path_is_symlink s' (p @ ns) = path_is_symlink s (p @ ns) \<and>
               os_readlink s' (p @ ns) = os_readlink s (p @ ns) \<and>
               os_listdir s' (p @ ns) = os_listdir s (p @ ns)) \<longrightarrow>
            traverse_tree fuel s' t (Directory p []) d = Some (Inr r)) \<and>
         (\<forall>q. skip_condition s t q \<longleftrightarrow>
                (\<exists>pat\<in>set (exclude t). fnmatch s (path_name q) pat)) \<and>
         (\<forall>fuel' e. (\<exists>pat\<in>set (exclude t). fnmatch s (path_name e) pat) \<longrightarrow>
                process_item fuel' s t e d = Some (Inr None))"
proof (intro conjI ballI allI impI)
  fix it assume it: "it \<in> set (descendants r)"
  from traverse_tree_descendants [OF assms] obtain new where
    r: "r = Directory p ([] @ new)" and
    sub: "\<forall>c\<in>set new. \<forall>it\<in>set (c # descendants c).
          \<exists>ns. ns \<noteq> [] \<and> item_path it = p @ ns \<and> (\<forall>n\<in>set ns. \<not> skip_loop s n (exclude t))"
    by blast
  from it r obtain c where "c \<in> set new" "it \<in> set (c # descendants c)" by auto
  with sub obtain ns where ns: "ns \<noteq> []" "item_path it = p @ ns"
    "\<forall>n\<in>set ns. \<not> skip_loop s n (exclude t)"
    by blast
  then show "\<exists>ns. ns \<noteq> [] \<and> item_path it = p @ ns \<and>
                  (\<forall>n\<in>set ns. \<forall>pat\<in>set (exclude t). \<not> fnmatch s n pat)"
    by (auto simp: skip_loop_iff)
  from ns have "\<not> skip_loop s (last ns) (exclude t)" by simp
  moreover from ns have "item_name it = last ns" by (simp add: item_name_def path_name_def)
  ultimately have "\<not> skip_loop s (item_name it) (exclude t)" by simp
  then have "\<forall>pat\<in>set (exclude t). \<not> fnmatch s (item_name it) pat"
    by (simp add: skip_loop_iff)
  then show "\<not> fnmatch s (item_name it) pat" if "pat \<in> set (exclude t)" for pat
    using that by blast
next
  fix line assume "line \<in> set (draw_lines r prefix)"
  from draw_lines_rows [OF this]
  show "\<exists>pre b it. it \<in> set (descendants r) \<and>
          line = pre @ TreeElements_value (if b then LAST else FILE) @ '' '' @ row_label it"
    by (simp add: connector_of_def)
next
  fix s' :: sys
  assume agree: "fnmatch s' = fnmatch s \<and>
            (\<forall>ns. (\<forall>n\<in>set ns. \<forall>pat\<in>set (exclude t). \<not> fnmatch s n pat) \<longrightarrow>
               path_is_dir s' (p @ ns) = path_is_dir s (p @ ns) \<and>
               path_is_symlink s' (p @ ns) = path_is_symlink s (p @ ns) \<and>
               os_readlink s' (p @ ns) = os_readlink s (p @ ns) \<and>
               os_listdir s' (p @ ns) = os_listdir s (p @ ns))"
  then have "traverse_tree fuel s' t (Directory p []) d = traverse_tree fuel s t (Directory p []) d"
    by (intro traverse_tree_agree) (simp_all add: skip_loop_iff)
  with assms show "traverse_tree fuel s' t (Directory p []) d = Some (Inr r)" by simp
next
  fix q :: path
  show "skip_condition s t q \<longleftrightarrow> (\<exists>pat\<in>set (exclude t). fnmatch s (path_name q) pat)"
    by (rule skip_condition_iff)
next
  fix fuel' and e :: path
  assume "\<exists>pat\<in>set (exclude t). fnmatch s (path_name e) pat"
  then have "skip_condition s t e" by (simp add: skip_condition_iff)
  then show "process_item fuel' s t e d = Some (Inr None)"
    by (simp add: process_item_None_iff)
qed

theorem excluded_entries_witness:
  "traverse_tree (Suc (Suc 0)) example_sys
     \<lparr>root = Directory [''tmp'', ''e''] [], max_depth = None,
        exclude = [''__pycache__'', ''.git'']\<rparr>
     (Directory [''tmp'', ''e''] []) 0 =
   Some (Inr (Directory [''tmp'', ''e'']
               [File [''tmp'', ''e'', ''a''],
                Directory [''tmp'', ''e'', ''src''] [File [''tmp'', ''e'', ''src'', ''main.py'']]])) \<and>
   os_listdir example_sys [''tmp'', ''e''] = Inr [''src'', ''a'', ''.git''] \<and>
   os_listdir example_sys [''tmp'', ''e'', ''src''] = Inr [''main.py'', ''.git''] \<and>
   fnmatch example_sys ''.git'' ''.git'' \<and>
   \<not> fnmatch example_sys ''main.py'' ''__pycache__'' \<and>
   \<not> fnmatch example_sys ''main.py'' ''.git''"
proof -
  let ?t = "\<lparr>root = Directory [''tmp'', ''e''] [], max_depth = None,
              exclude = [''__pycache__'', ''.git'']\<rparr>"
  let ?r = "Directory [''tmp'', ''e'']
               [File [''tmp'', ''e'', ''a''],
                Directory [''tmp'', ''e'', ''src''] [File [''tmp'', ''e'', ''src'', ''main.py'']]]"
  have run: "traverse_tree (Suc (Suc 0)) example_sys ?t (Directory [''tmp'', ''e''] []) 0 =
               Some (Inr ?r)"
    by (simp add: walk_eval)
  from excluded_entries [OF run, of "[]"]
  have "\<forall>it\<in>set (descendants ?r).
            (\<forall>pat\<in>set (exclude ?t). \<not> fnmatch example_sys (item_name it) pat) \<and>
            (\<exists>ns. ns \<noteq> [] \<and> item_path it = [''tmp'', ''e''] @ ns \<and>
                  (\<forall>n\<in>set ns. \<forall>pat\<in>set (exclude ?t). \<not> fnmatch example_sys n pat))"
    by (rule conjunct1)
  then have "\<not> fnmatch example_sys ''main.py'' ''__pycache__'' \<and>
             \<not> fnmatch example_sys ''main.py'' ''.git''"
    by (simp add: item_name_def path_name_def)
  with run show ?thesis by (simp add: walk_eval)
qed

end
